theory Spec2Isabelle
  imports Complex_Main "HOL-Library.Word"
begin

section \<open>The trim effect of libSoX (src/trim.c)\<close>

text \<open>
  The effect cuts portions out of an audio stream: a list of positions alternately
  switches copying on and off. This theory embeds the functions \<^verbatim>\<open>start\<close>,
  \<^verbatim>\<open>flow\<close>, \<^verbatim>\<open>drain\<close>, \<^verbatim>\<open>sox_trim_get_start\<close> and
  \<^verbatim>\<open>sox_trim_clear_start\<close> of \<^verbatim>\<open>trim.c\<close> and proves properties of them.

  Machine integers are words: \<^verbatim>\<open>uint64_t\<close> and \<^verbatim>\<open>size_t\<close> are
  \<open>64 word\<close> (a platform with 64-bit sizes), \<^verbatim>\<open>unsigned int\<close> is \<open>32 word\<close>, and
  the arithmetic on them wraps around as in C.
\<close>

subsection \<open>Data\<close>

type_synonym uint64_t = "64 word"
type_synonym size_t = "64 word"
type_synonym unsigned = "32 word"
type_synonym sox_sample_t = "32 word"

text \<open>The anonymous enum of the position array (lines 31-33).\<close>

datatype anchor_t = a_start | a_latest | a_end

text \<open>One element of the array \<^verbatim>\<open>pos\<close> (lines 28-34).\<close>

record pos_t =
  sample :: uint64_t
  argstr :: string
  anchor :: anchor_t

text \<open>
  The struct \<^verbatim>\<open>priv_t\<close> (lines 25-40). The array \<^verbatim>\<open>pos\<close> is a list; the C
  code reads \<^verbatim>\<open>pos[i]\<close> only for \<open>i < num_pos\<close>.
\<close>

record priv_t =
  num_pos :: unsigned
  pos :: "pos_t list"
  current_pos :: unsigned
  samples_read :: uint64_t
  copying :: bool
  uses_end :: bool

text \<open>
  The fields of \<^verbatim>\<open>sox_signalinfo_t\<close> and \<^verbatim>\<open>sox_effect_t\<close> that
  \<^verbatim>\<open>trim.c\<close> reads and writes. The field \<^verbatim>\<open>length\<close> is named
  \<open>length_sig\<close> here.
\<close>

record sox_signalinfo_t =
  rate :: real
  channels :: unsigned
  length_sig :: uint64_t

record sox_effect_t =
  in_signal :: sox_signalinfo_t
  out_signal :: sox_signalinfo_t
  priv :: priv_t

text \<open>The return codes of the effect handlers that \<^verbatim>\<open>trim.c\<close> uses.\<close>

datatype sox_status = SOX_SUCCESS | SOX_EOF | SOX_EFF_NULL

text \<open>
  Modelled from the spec: the sentinel of the stream metadata that means that the total
  length is unknown. Its declaration (\<^verbatim>\<open>sox.h\<close>) is not part of the sources at
  hand; there it is the largest 64-bit value, \<^verbatim>\<open>(sox_uint64_t)(-1)\<close>.
\<close>

definition SOX_UNKNOWN_LEN :: uint64_t where
  "SOX_UNKNOWN_LEN = - 1"

text \<open>
  The messages of \<^verbatim>\<open>lsx_fail\<close> and \<^verbatim>\<open>lsx_usage\<close> in \<^verbatim>\<open>parse\<close> and
  \<^verbatim>\<open>start\<close>, each followed there by \<^verbatim>\<open>return SOX_EOF\<close>. The arguments are
  the numbers that the messages print.
\<close>

datatype trim_error =
    Usage
  | LengthRequired
  | PositionBeforeStart unsigned
  | MarkersOutOfOrder unsigned
  | StartBeyondEnd
  | EndBeyondEnd

subsection \<open>flow (lines 147-179)\<close>

text \<open>
  The local variables of \<^verbatim>\<open>flow\<close>: \<open>ibuf\<close> is the input from the current read
  pointer on, \<open>obuf\<close> is what has been written to the output buffer so far, \<open>isamp\<close> and
  \<open>osamp\<close> are the two counters reported to the caller, \<open>len\<close> is the number of frames
  still to process.
\<close>

record flow_locals =
  ibuf :: "sox_sample_t list"
  obuf :: "sox_sample_t list"
  isamp :: size_t
  osamp :: size_t
  len :: size_t

text \<open>Lines 159-163: at a position, toggle \<open>copying\<close> and move to the next position.\<close>

definition cross_pos :: "priv_t \<Rightarrow> priv_t" where
  "cross_pos p =
     (if current_pos p < num_pos p \<and>
         samples_read p = sample (pos p ! unat (current_pos p))
      then p\<lparr>copying := \<not> copying p, current_pos := current_pos p + 1\<rparr>
      else p)"

text \<open>Lines 168-169: the number of frames up to the next position, at most \<open>len\<close>.\<close>

definition chunk_of :: "priv_t \<Rightarrow> size_t \<Rightarrow> size_t" where
  "chunk_of p n =
     (if current_pos p < num_pos p
      then min n (sample (pos p ! unat (current_pos p)) - samples_read p)
      else n)"

text \<open>
  Lines 170-175: copy the chunk when \<open>copying\<close>, advance both buffers and counters.
  (\<^verbatim>\<open>samples_read\<close> is advanced in \<open>flow_loop\<close> below.)
\<close>

definition transfer :: "size_t \<Rightarrow> bool \<Rightarrow> size_t \<Rightarrow> flow_locals \<Rightarrow> flow_locals" where
  "transfer chans cp chunk l =
     (let l1 = (if cp
                then l\<lparr>obuf := obuf l @ take (unat (chunk * chans)) (ibuf l),
                       osamp := osamp l + chunk * chans\<rparr>
                else l)
      in l1\<lparr>ibuf := drop (unat (chunk * chans)) (ibuf l1),
            isamp := isamp l1 + chunk * chans,
            len := len l1 - chunk\<rparr>)"

lemma len_transfer [simp]: "len (transfer chans cp chunk l) = len l - chunk"
  by (simp add: transfer_def Let_def)

lemma chunk_of_le: "chunk_of p n \<le> n"
  by (simp add: chunk_of_def)

lemma chunk_of_zero_crossed:
  assumes "n \<noteq> 0" and "chunk_of (cross_pos p) n = 0"
  shows "current_pos p < num_pos p \<and> current_pos (cross_pos p) = current_pos p + 1"
proof -
  let ?q = "cross_pos p"
  from assms have lt: "current_pos ?q < num_pos ?q"
    and eq: "sample (pos ?q ! unat (current_pos ?q)) = samples_read ?q"
    by (auto simp: chunk_of_def min_def split: if_splits)
  show ?thesis
  proof (cases "current_pos p < num_pos p \<and>
      samples_read p = sample (pos p ! unat (current_pos p))")
    case True
    then show ?thesis by (simp add: cross_pos_def)
  next
    case False
    then have "?q = p" by (simp add: cross_pos_def)
    with lt eq False show ?thesis by simp
  qed
qed

lemma word_sub_less_self:
  fixes n c :: "'a::len word"
  assumes "c \<le> n" and "c \<noteq> 0"
  shows "unat (n - c) < unat n"
proof -
  from assms(1) have "unat (n - c) = unat n - unat c" by (rule unat_sub)
  moreover from assms(2) have "0 < unat c" by (simp add: unat_gt_0)
  moreover from assms(1) have "unat c \<le> unat n" by (simp add: word_le_nat_alt)
  ultimately show ?thesis by arith
qed

lemma word_succ_gap:
  fixes i n :: "'a::len word"
  assumes "i < n"
  shows "unat n - unat (i + 1) < unat n - unat i"
proof -
  from assms have a: "unat i < unat n" by (simp add: word_less_nat_alt)
  have "unat n < 2 ^ LENGTH('a)" by (rule unsigned_less)
  with a have "unat i + 1 < 2 ^ LENGTH('a)" by arith
  then have "unat (i + 1) = unat i + 1"
    by (simp add: unat_word_ariths)
  with a show ?thesis by arith
qed

text \<open>
  The loop of lines 156-176. It ends: a chunk of zero frames is only taken right after a
  position has been crossed, so each round either uses up frames or moves to the next
  position.
\<close>

function flow_loop :: "size_t \<Rightarrow> priv_t \<Rightarrow> flow_locals \<Rightarrow> sox_status \<times> priv_t \<times> flow_locals" where
  "flow_loop chans p l =
     (if len l = 0 then (SOX_SUCCESS, p, l)
      else if num_pos (cross_pos p) \<le> current_pos (cross_pos p) \<and> \<not> copying (cross_pos p)
      then (SOX_EOF, cross_pos p, l)
      else flow_loop chans
             ((cross_pos p)\<lparr>samples_read :=
                 samples_read (cross_pos p) + chunk_of (cross_pos p) (len l)\<rparr>)
             (transfer chans (copying (cross_pos p)) (chunk_of (cross_pos p) (len l)) l))"
  by pat_completeness auto
termination
proof (relation "measures [\<lambda>(chans, p, l). unat (len l),
    \<lambda>(chans, p, l). unat (num_pos p) - unat (current_pos p)]", goal_cases)
  case 1
  show ?case by simp
next
  case (2 chans p l)
  let ?q = "cross_pos p"
  let ?c = "chunk_of ?q (len l)"
  have np: "num_pos ?q = num_pos p" by (simp add: cross_pos_def)
  show ?case
  proof (cases "?c = 0")
    case True
    with 2(1) have "current_pos p < num_pos p \<and> current_pos ?q = current_pos p + 1"
      by (intro chunk_of_zero_crossed) auto
    then have "unat (num_pos p) - unat (current_pos ?q) < unat (num_pos p) - unat (current_pos p)"
      by (simp add: word_succ_gap)
    with True np show ?thesis by simp
  next
    case False
    then have "unat (len l - ?c) < unat (len l)"
      by (intro word_sub_less_self chunk_of_le)
    then show ?thesis by simp
  qed
qed

declare flow_loop.simps [simp del]

text \<open>
  \<^verbatim>\<open>flow\<close> itself. The caller passes the input buffer with its size \<open>isamp0\<close> and
  the capacity \<open>osamp0\<close> of the output buffer; the result is the status, the effect with
  its new state, the samples written to the output buffer, and the two counts
  \<^verbatim>\<open>*isamp\<close> and \<^verbatim>\<open>*osamp\<close>. The division by the channel count is C's:
  the caller guarantees at least one channel.
\<close>

definition flow ::
  "sox_effect_t \<Rightarrow> sox_sample_t list \<Rightarrow> size_t \<Rightarrow> size_t \<Rightarrow>
     sox_status \<times> sox_effect_t \<times> sox_sample_t list \<times> size_t \<times> size_t" where
  "flow effp ibuf0 isamp0 osamp0 =
     (let chans = ucast (channels (in_signal effp)) :: size_t;
          n = min isamp0 osamp0 div chans;
          (st, p, l) = flow_loop chans (priv effp)
             \<lparr>ibuf = ibuf0, obuf = [], isamp = 0, osamp = 0, len = n\<rparr>
      in (st, effp\<lparr>priv := p\<rparr>, obuf l, isamp l, osamp l))"

subsection \<open>drain (lines 181-189)\<close>

text \<open>
  The result is the status, \<^verbatim>\<open>*osamp\<close>, and the number printed by the warning of
  \<^verbatim>\<open>lsx_warn\<close> when there is one. The state is not written.
\<close>

definition drain :: "sox_effect_t \<Rightarrow> sox_status \<times> size_t \<times> unsigned option" where
  "drain effp =
     (let p = priv effp
      in (SOX_EOF, 0,
          if current_pos p < num_pos p then Some (num_pos p - current_pos p) else None))"

subsection \<open>start (lines 71-145)\<close>

text \<open>
  The parser of positions, \<^verbatim>\<open>lsx_parsesamples\<close>, belongs to another file of
  libSoX. It is a parameter here: given the sample rate and the text it returns the number
  of frames and the text left over, or \<open>None\<close> where the C function returns
  \<^verbatim>\<open>NULL\<close>.
\<close>

type_synonym parser_t = "real \<Rightarrow> string \<Rightarrow> (uint64_t \<times> string) option"

text \<open>Lines 74-75: the length of the input in frames.\<close>

definition in_length_of :: "sox_effect_t \<Rightarrow> uint64_t" where
  "in_length_of effp =
     (if length_sig (in_signal effp) \<noteq> SOX_UNKNOWN_LEN
      then length_sig (in_signal effp) div ucast (channels (in_signal effp))
      else SOX_UNKNOWN_LEN)"

text \<open>
  The loop of lines 87-104, from index \<open>i\<close> on. The counter \<open>i\<close> of the C code is an
  \<^verbatim>\<open>unsigned int\<close> that stays below \<open>num_pos\<close>, so it never wraps and is a
  natural number here; the message prints \<open>i + 1\<close>.
\<close>

function resolve_loop ::
  "parser_t \<Rightarrow> real \<Rightarrow> uint64_t \<Rightarrow> priv_t \<Rightarrow> nat \<Rightarrow> uint64_t \<Rightarrow> trim_error + priv_t" where
  "resolve_loop lsx_parsesamples r in_length p i last_seen =
     (if i < unat (num_pos p) then
        (case lsx_parsesamples r (argstr (pos p ! i)) of
           None \<Rightarrow> Inl Usage
         | Some (s, rest) \<Rightarrow>
             (case anchor (pos p ! i) of
                a_start \<Rightarrow>
                  resolve_loop lsx_parsesamples r in_length
                    (p\<lparr>pos := (pos p)[i := (pos p ! i)\<lparr>sample := s\<rparr>]\<rparr>) (i + 1) s
              | a_latest \<Rightarrow>
                  resolve_loop lsx_parsesamples r in_length
                    (p\<lparr>pos := (pos p)[i := (pos p ! i)\<lparr>sample := last_seen + s\<rparr>]\<rparr>)
                    (i + 1) (last_seen + s)
              | a_end \<Rightarrow>
                  if s > in_length then Inl (PositionBeforeStart (of_nat (i + 1)))
                  else
                    resolve_loop lsx_parsesamples r in_length
                      (p\<lparr>pos := (pos p)[i := (pos p ! i)\<lparr>sample := in_length - s\<rparr>]\<rparr>)
                      (i + 1) (in_length - s)))
      else Inr p)"
  by pat_completeness auto
termination
  by (relation "measure (\<lambda>(ps, r, n, p, i, last_seen). unat (num_pos p) - i)") auto

declare resolve_loop.simps [simp del]

text \<open>The loop of lines 107-114; the message prints \<open>i\<close>.\<close>

function sanity_loop :: "priv_t \<Rightarrow> nat \<Rightarrow> uint64_t \<Rightarrow> trim_error option" where
  "sanity_loop p i last_seen =
     (if i < unat (num_pos p) then
        (if sample (pos p ! i) < last_seen then Some (MarkersOutOfOrder (of_nat i))
         else sanity_loop p (i + 1) (sample (pos p ! i)))
      else None)"
  by pat_completeness auto
termination
  by (relation "measure (\<lambda>(p, i, last_seen). unat (num_pos p) - i)") auto

declare sanity_loop.simps [simp del]

text \<open>
  The loop of lines 135-137, which adds up the kept spans into
  \<^verbatim>\<open>effp->out_signal.length\<close>.
\<close>

function length_loop :: "priv_t \<Rightarrow> nat \<Rightarrow> uint64_t \<Rightarrow> uint64_t" where
  "length_loop p i out_length =
     (if i + 1 < unat (num_pos p)
      then length_loop p (i + 2)
             (out_length + (sample (pos p ! (i + 1)) - sample (pos p ! i)))
      else out_length)"
  by pat_completeness auto
termination
  by (relation "measure (\<lambda>(p, i, out_length). unat (num_pos p) - i)") auto

declare length_loop.simps [simp del]

text \<open>
  \<^verbatim>\<open>start\<close>. A failure (\<^verbatim>\<open>lsx_fail\<close> or \<^verbatim>\<open>lsx_usage\<close>, then
  \<^verbatim>\<open>SOX_EOF\<close>) is \<open>Inl\<close> of its message; otherwise the result is the status
  (\<open>SOX_SUCCESS\<close> or \<open>SOX_EFF_NULL\<close>) and the effect as the function leaves it.
\<close>

definition start :: "parser_t \<Rightarrow> sox_effect_t \<Rightarrow> trim_error + (sox_status \<times> sox_effect_t)" where
  "start lsx_parsesamples effp =
     (let in_length = in_length_of effp;
          p0 = (priv effp)\<lparr>copying := False\<rparr>
      in
      if in_length = SOX_UNKNOWN_LEN \<and> uses_end p0 then Inl LengthRequired
      else
        (case resolve_loop lsx_parsesamples (rate (in_signal effp)) in_length p0 0 0 of
           Inl e \<Rightarrow> Inl e
         | Inr p \<Rightarrow>
             (case sanity_loop p 0 0 of
                Some e \<Rightarrow> Inl e
              | None \<Rightarrow>
                  if num_pos p \<noteq> 0 \<and> in_length \<noteq> SOX_UNKNOWN_LEN \<and>
                     sample (pos p ! 0) > in_length
                  then Inl StartBeyondEnd
                  else if num_pos p \<noteq> 0 \<and> in_length \<noteq> SOX_UNKNOWN_LEN \<and>
                     sample (pos p ! unat (num_pos p - 1)) > in_length
                  then Inl EndBeyondEnd
                  else if num_pos p = 1 \<and> sample (pos p ! 0) = 0
                  then Inr (SOX_EFF_NULL, effp\<lparr>priv := p\<rparr>)
                  else
                    (let open_end = (num_pos p mod 2 \<noteq> 0)
                     in
                     if open_end \<and> in_length = SOX_UNKNOWN_LEN
                     then Inr (SOX_SUCCESS,
                            effp\<lparr>priv := p,
                              out_signal := (out_signal effp)\<lparr>length_sig := SOX_UNKNOWN_LEN\<rparr>\<rparr>)
                     else
                       (let l1 = length_loop p 0 0;
                            l2 = (if open_end
                                  then l1 + (in_length - sample (pos p ! unat (num_pos p - 1)))
                                  else l1);
                            l3 = l2 * ucast (channels (in_signal effp))
                        in Inr (SOX_SUCCESS,
                             effp\<lparr>priv := p,
                               out_signal := (out_signal effp)\<lparr>length_sig := l3\<rparr>\<rparr>))))))"

subsection \<open>The start-skip interface (lines 221-231)\<close>

definition sox_trim_get_start :: "sox_effect_t \<Rightarrow> uint64_t" where
  "sox_trim_get_start effp =
     (let p = priv effp
      in if num_pos p \<noteq> 0 then sample (pos p ! 0) * ucast (channels (in_signal effp)) else 0)"

definition sox_trim_clear_start :: "sox_effect_t \<Rightarrow> sox_effect_t" where
  "sox_trim_clear_start effp =
     (let p = priv effp
      in effp\<lparr>priv := p\<lparr>samples_read := (if num_pos p \<noteq> 0 then sample (pos p ! 0) else 0)\<rparr>\<rparr>)"

subsection \<open>Well-formed states\<close>

text \<open>
  \<^verbatim>\<open>parse\<close> allocates \<open>num_pos\<close> elements for \<open>pos\<close>, and the cursor
  \<open>current_pos\<close> only moves up to \<open>num_pos\<close>.
\<close>

definition priv_ok :: "priv_t \<Rightarrow> bool" where
  "priv_ok p \<longleftrightarrow> length (pos p) = unat (num_pos p) \<and> current_pos p \<le> num_pos p"

subsection \<open>Sequences of calls\<close>

text \<open>
  Any sequence of calls of \<^verbatim>\<open>flow\<close> on one effect, each with its own buffers; the
  result is the effect after the last call.
\<close>

fun flow_calls :: "sox_effect_t \<Rightarrow> (sox_sample_t list \<times> size_t \<times> size_t) list \<Rightarrow> sox_effect_t" where
  "flow_calls effp [] = effp"
| "flow_calls effp ((ibuf0, isamp0, osamp0) # cs) =
     flow_calls (fst (snd (flow effp ibuf0 isamp0 osamp0))) cs"

text \<open>
  Modelled from the spec: the host that drives the streaming phase. It is not part of
  \<^verbatim>\<open>trim.c\<close>. For each pair of buffer sizes it offers \<^verbatim>\<open>flow\<close> the unread part
  of the stream, as many samples as the input buffer holds, and the capacity of the output
  buffer; it takes the samples written, skips the samples that \<^verbatim>\<open>flow\<close> reports as
  consumed, and stops calling when \<^verbatim>\<open>flow\<close> signals the end with \<open>SOX_EOF\<close>. The
  result is the last status, the effect, everything written, and the unread rest of the
  stream.
\<close>

fun run_flow ::
  "sox_effect_t \<Rightarrow> sox_sample_t list \<Rightarrow> (size_t \<times> size_t) list \<Rightarrow>
     sox_status \<times> sox_effect_t \<times> sox_sample_t list \<times> sox_sample_t list" where
  "run_flow effp stream [] = (SOX_SUCCESS, effp, [], stream)"
| "run_flow effp stream ((isize, osize) # bs) =
     (case flow effp stream (of_nat (min (unat isize) (length stream))) osize of
        (st, effp', out, n, m) \<Rightarrow>
          if st = SOX_EOF then (SOX_EOF, effp', out, drop (unat n) stream)
          else
            (case run_flow effp' (drop (unat n) stream) bs of
               (st', effp'', out', rest) \<Rightarrow> (st', effp'', out @ out', rest)))"

subsection \<open>The position resolver as the specification words it\<close>

text \<open>
  The specification's rule for resolving the markers, on the list of anchors and parsed
  values: walk the markers in order with \<open>last_seen\<close>, initially 0; \<open>FromStart\<close>
  (\<open>a_start\<close>) resolves to the parsed value, \<open>FromPrevious\<close> (\<open>a_latest\<close>) to
  \<open>last_seen\<close> plus the parsed value, \<open>FromEnd\<close> (\<open>a_end\<close>) to the total length
  minus the parsed value, which fails when the parsed value exceeds the total length;
  then \<open>last_seen\<close> becomes the resolved offset. The arithmetic is that of 64-bit
  counters.
\<close>

fun resolve_spec ::
  "uint64_t \<Rightarrow> uint64_t \<Rightarrow> nat \<Rightarrow> (anchor_t \<times> uint64_t) list \<Rightarrow> trim_error + uint64_t list" where
  "resolve_spec total_length last_seen i [] = Inr []"
| "resolve_spec total_length last_seen i ((a, v) # ms) =
     (if a = a_end \<and> v > total_length then Inl (PositionBeforeStart (of_nat (i + 1)))
      else
        (let resolved =
               (case a of a_start \<Rightarrow> v | a_latest \<Rightarrow> last_seen + v | a_end \<Rightarrow> total_length - v)
         in case resolve_spec total_length resolved (i + 1) ms of
              Inl e \<Rightarrow> Inl e
            | Inr rs \<Rightarrow> Inr (resolved # rs)))"

subsection \<open>The kept spans and the declared length as the specification words them\<close>

text \<open>
  The markers alternate discard, keep, discard, keep: of a stream that starts at frame
  \<open>sr\<close>, with \<open>ch\<close> samples in a frame, the kept spans are the frames up to the next
  marker when copying, then the kept spans of the rest with copying toggled; after the
  last marker everything is kept when copying and nothing otherwise.
\<close>

fun kept_spans :: "nat \<Rightarrow> bool \<Rightarrow> nat \<Rightarrow> nat list \<Rightarrow> 'a list \<Rightarrow> 'a list" where
  "kept_spans ch c sr [] xs = (if c then xs else [])"
| "kept_spans ch c sr (m # ms) xs =
     (if c then take ((m - sr) * ch) xs else []) @
     kept_spans ch (\<not> c) m ms (drop ((m - sr) * ch) xs)"


section \<open>Properties\<close>

subsection \<open>The loop of flow, one round at a time\<close>

lemma flow_loop_zero: "len l = 0 \<Longrightarrow> flow_loop chans p l = (SOX_SUCCESS, p, l)"
  by (simp add: flow_loop.simps)

lemma cross_pos_num_pos [simp]: "num_pos (cross_pos p) = num_pos p"
  by (simp add: cross_pos_def)


lemma cross_pos_pos [simp]: "pos (cross_pos p) = pos p"
  by (simp add: cross_pos_def)

lemma cross_pos_uses_end [simp]: "uses_end (cross_pos p) = uses_end p"
  by (simp add: cross_pos_def)

lemma word_succ_unat:
  fixes i n :: "'a::len word"
  assumes "i < n"
  shows "unat (i + 1) = Suc (unat i)"
proof -
  from assms have a: "unat i < unat n" by (simp add: word_less_nat_alt)
  have "unat n < 2 ^ LENGTH('a)" by (rule unsigned_less)
  with a have "unat i + 1 < 2 ^ LENGTH('a)" by arith
  then show ?thesis by (simp add: unat_word_ariths)
qed

text \<open>One crossing moves the cursor by one and flips the flag; otherwise both stay.\<close>

lemma cross_pos_at:
  "current_pos p < num_pos p \<Longrightarrow> samples_read p = sample (pos p ! unat (current_pos p)) \<Longrightarrow>
     cross_pos p = p\<lparr>copying := \<not> copying p, current_pos := current_pos p + 1\<rparr>"
  by (simp add: cross_pos_def)

lemma cross_pos_not_at:
  "\<not> (current_pos p < num_pos p \<and> samples_read p = sample (pos p ! unat (current_pos p))) \<Longrightarrow>
     cross_pos p = p"
  by (auto simp: cross_pos_def)

lemma cross_pos_parity:
  "unat (current_pos p) \<le> unat (current_pos (cross_pos p)) \<and>
   (copying (cross_pos p) \<longleftrightarrow>
      copying p \<noteq> odd (unat (current_pos (cross_pos p)) - unat (current_pos p)))"
proof (cases "current_pos p < num_pos p \<and>
    samples_read p = sample (pos p ! unat (current_pos p))")
  case True
  then have "unat (current_pos p + 1) = Suc (unat (current_pos p))"
    by (intro word_succ_unat [of _ "num_pos p"]) simp
  with True show ?thesis by (simp add: cross_pos_at)
next
  case False
  then have "cross_pos p = p" by (rule cross_pos_not_at)
  then show ?thesis by simp
qed

lemma flow_loop_eof:
  assumes "len l \<noteq> 0"
    and "num_pos (cross_pos p) \<le> current_pos (cross_pos p) \<and> \<not> copying (cross_pos p)"
  shows "flow_loop chans p l = (SOX_EOF, cross_pos p, l)"
  using assms by (subst flow_loop.simps) simp

lemma flow_loop_step:
  assumes "len l \<noteq> 0"
    and "\<not> (num_pos (cross_pos p) \<le> current_pos (cross_pos p) \<and> \<not> copying (cross_pos p))"
  shows "flow_loop chans p l =
       flow_loop chans
         ((cross_pos p)\<lparr>samples_read := samples_read (cross_pos p) + chunk_of (cross_pos p) (len l)\<rparr>)
         (transfer chans (copying (cross_pos p)) (chunk_of (cross_pos p) (len l)) l)"
proof -
  from assms(2)
  have "(num_pos (cross_pos p) \<le> current_pos (cross_pos p) \<and> \<not> copying (cross_pos p)) = False"
    by blast
  with assms(1) show ?thesis by (subst flow_loop.simps) (simp only: if_False)
qed

lemma flow_loop_parity:
  "flow_loop chans p l = (st, p', l') \<Longrightarrow>
     num_pos p' = num_pos p \<and> pos p' = pos p \<and> uses_end p' = uses_end p \<and>
     unat (current_pos p) \<le> unat (current_pos p') \<and>
     (copying p' \<longleftrightarrow> copying p \<noteq> odd (unat (current_pos p') - unat (current_pos p)))"
proof (induction chans p l arbitrary: st p' l' rule: flow_loop.induct)
  case (1 chans p l)
  let ?q = "cross_pos p"
  show ?case
  proof (cases "len l = 0")
    case True
    with 1(2) show ?thesis by (simp add: flow_loop.simps)
  next
    case False
    note nz = this
    show ?thesis
    proof (cases "num_pos ?q \<le> current_pos ?q \<and> \<not> copying ?q")
      case True
      with nz 1(2) have "p' = ?q" by (simp add: flow_loop_eof)
      then show ?thesis using cross_pos_parity [of p] by simp
    next
      case False
      let ?r = "?q\<lparr>samples_read := samples_read ?q + chunk_of ?q (len l)\<rparr>"
      from nz False 1(2)
      have "flow_loop chans ?r (transfer chans (copying ?q) (chunk_of ?q (len l)) l) = (st, p', l')"
        by (simp add: flow_loop_step)
      from 1(1) [OF nz False this] cross_pos_parity [of p]
      show ?thesis by auto
    qed
  qed
qed

subsection \<open>Examples\<close>

text \<open>
  A parser for the examples: it knows four texts. The effect \<open>ex_effp0\<close> is as
  \<^verbatim>\<open>parse\<close> leaves it for the arguments \<^verbatim>\<open>=5 5\<close>, on a stereo input of 12
  frames; \<open>ex_effp\<close> is what \<^verbatim>\<open>start\<close> makes of it.
\<close>

abbreviation ex_parser :: parser_t where
  "ex_parser \<equiv> (\<lambda>r s. if s = ''0'' then Some (0, [])
     else if s = ''5'' then Some (5, [])
     else if s = ''10'' then Some (10, [])
     else if s = ''20'' then Some (20, []) else None)"

abbreviation ex_effp0 :: sox_effect_t where
  "ex_effp0 \<equiv>
     \<lparr>in_signal = \<lparr>rate = 44100, channels = 2, length_sig = 24\<rparr>,
      out_signal = \<lparr>rate = 44100, channels = 2, length_sig = 0\<rparr>,
      priv = \<lparr>num_pos = 2,
        pos = [\<lparr>sample = 0, argstr = ''5'', anchor = a_start\<rparr>,
               \<lparr>sample = 0, argstr = ''5'', anchor = a_latest\<rparr>],
        current_pos = 0, samples_read = 0, copying = False, uses_end = False\<rparr>\<rparr>"

abbreviation ex_effp :: sox_effect_t where
  "ex_effp \<equiv>
     \<lparr>in_signal = \<lparr>rate = 44100, channels = 2, length_sig = 24\<rparr>,
      out_signal = \<lparr>rate = 44100, channels = 2, length_sig = 10\<rparr>,
      priv = \<lparr>num_pos = 2,
        pos = [\<lparr>sample = 5, argstr = ''5'', anchor = a_start\<rparr>,
               \<lparr>sample = 10, argstr = ''5'', anchor = a_latest\<rparr>],
        current_pos = 0, samples_read = 0, copying = False, uses_end = False\<rparr>\<rparr>"

abbreviation ex_stream :: "sox_sample_t list" where
  "ex_stream \<equiv> [0, 1, 2, 3, 4, 5, 6, 7, 8, 9, 10, 11, 12, 13, 14, 15, 16, 17, 18, 19, 20, 21, 22, 23]"

lemmas ex_eval =
  start_def in_length_of_def SOX_UNKNOWN_LEN_def resolve_loop.simps sanity_loop.simps
  length_loop.simps flow_def flow_loop.simps cross_pos_def chunk_of_def transfer_def

lemma ex_start: "start ex_parser ex_effp0 = Inr (SOX_SUCCESS, ex_effp)"
  by (simp add: ex_eval)

subsection \<open>A call of flow with no whole frame\<close>

text \<open>
  C10. When the smaller of the two sample counts is less than the channel count, no frame
  is available: \<open>flow\<close> returns \<open>SOX_SUCCESS\<close>, reports zero samples consumed and zero
  produced, and leaves the whole effect (cursor, frames read, copying flag) as it was.
  This holds in every state, also when all positions have been crossed and \<open>copying\<close> is
  false, where a call with frames would return \<open>SOX_EOF\<close>.
\<close>

theorem flow_no_frame:
  assumes "channels (in_signal effp) \<noteq> 0"
    and "min isamp0 osamp0 < ucast (channels (in_signal effp))"
  shows "flow effp ibuf0 isamp0 osamp0 = (SOX_SUCCESS, effp, [], 0, 0)"
proof -
  from assms(2) have "min isamp0 osamp0 div ucast (channels (in_signal effp)) = (0 :: size_t)"
    by (simp add: word_less_nat_alt unat_div word_unat_eq_iff)
  then show ?thesis
    by (simp add: flow_def Let_def flow_loop_zero)
qed

theorem flow_no_frame_witness:
  "flow \<lparr>in_signal = \<lparr>rate = 44100, channels = 2, length_sig = 200\<rparr>,
         out_signal = \<lparr>rate = 44100, channels = 2, length_sig = 20\<rparr>,
         priv = \<lparr>num_pos = 2,
           pos = [\<lparr>sample = 0, argstr = ''0'', anchor = a_start\<rparr>,
                  \<lparr>sample = 10, argstr = ''10'', anchor = a_latest\<rparr>],
           current_pos = 2, samples_read = 10, copying = False, uses_end = False\<rparr>\<rparr>
        [7] 1 8
   = (SOX_SUCCESS,
      \<lparr>in_signal = \<lparr>rate = 44100, channels = 2, length_sig = 200\<rparr>,
         out_signal = \<lparr>rate = 44100, channels = 2, length_sig = 20\<rparr>,
         priv = \<lparr>num_pos = 2,
           pos = [\<lparr>sample = 0, argstr = ''0'', anchor = a_start\<rparr>,
                  \<lparr>sample = 10, argstr = ''10'', anchor = a_latest\<rparr>],
           current_pos = 2, samples_read = 10, copying = False, uses_end = False\<rparr>\<rparr>,
      [], 0, 0)"
  by (rule flow_no_frame) simp_all

subsection \<open>drain\<close>

text \<open>
  C7. \<open>drain\<close> always returns \<open>SOX_EOF\<close> and reports zero output samples. It warns
  exactly when the cursor has not reached the end of the positions, and the number in the
  warning is the number of positions from the cursor on, those never reached. The state
  of the effect is not written, so what has been copied stays as it is.
\<close>

theorem drain_eof:
  assumes "priv_ok (priv effp)"
  shows "fst (drain effp) = SOX_EOF \<and> fst (snd (drain effp)) = 0 \<and>
     (snd (snd (drain effp)) = None \<longleftrightarrow> current_pos (priv effp) = num_pos (priv effp)) \<and>
     (current_pos (priv effp) \<noteq> num_pos (priv effp) \<longrightarrow>
        (\<exists>k. snd (snd (drain effp)) = Some k \<and>
           unat k = length (drop (unat (current_pos (priv effp))) (pos (priv effp)))))"
proof -
  let ?p = "priv effp"
  from assms have le: "current_pos ?p \<le> num_pos ?p" and n: "length (pos ?p) = unat (num_pos ?p)"
    by (simp_all add: priv_ok_def)
  from le have "unat (num_pos ?p - current_pos ?p) = unat (num_pos ?p) - unat (current_pos ?p)"
    by (rule unat_sub)
  with le n show ?thesis
    by (auto simp: drain_def Let_def)
qed

theorem drain_eof_witness:
  "drain \<lparr>in_signal = \<lparr>rate = 44100, channels = 1, length_sig = 12\<rparr>,
          out_signal = \<lparr>rate = 44100, channels = 1, length_sig = 5\<rparr>,
          priv = \<lparr>num_pos = 2,
            pos = [\<lparr>sample = 10, argstr = ''10'', anchor = a_latest\<rparr>,
                   \<lparr>sample = 15, argstr = ''5'', anchor = a_latest\<rparr>],
            current_pos = 1, samples_read = 12, copying = True, uses_end = False\<rparr>\<rparr>
   = (SOX_EOF, 0, Some 1)"
  using drain_eof [of "\<lparr>in_signal = \<lparr>rate = 44100, channels = 1, length_sig = 12\<rparr>,
          out_signal = \<lparr>rate = 44100, channels = 1, length_sig = 5\<rparr>,
          priv = \<lparr>num_pos = 2,
            pos = [\<lparr>sample = 10, argstr = ''10'', anchor = a_latest\<rparr>,
                   \<lparr>sample = 15, argstr = ''5'', anchor = a_latest\<rparr>],
            current_pos = 1, samples_read = 12, copying = True, uses_end = False\<rparr>\<rparr>"]
  by (simp add: priv_ok_def drain_def)

subsection \<open>start: list views of the loops\<close>

fun resolve_list ::
  "parser_t \<Rightarrow> real \<Rightarrow> uint64_t \<Rightarrow> nat \<Rightarrow> uint64_t \<Rightarrow> pos_t list \<Rightarrow> trim_error + pos_t list" where
  "resolve_list ps r n i last_seen [] = Inr []"
| "resolve_list ps r n i last_seen (x # xs) =
     (case ps r (argstr x) of
        None \<Rightarrow> Inl Usage
      | Some (s, rest) \<Rightarrow>
          (case anchor x of
             a_start \<Rightarrow>
               (case resolve_list ps r n (i + 1) s xs of
                  Inl e \<Rightarrow> Inl e | Inr ys \<Rightarrow> Inr (x\<lparr>sample := s\<rparr> # ys))
           | a_latest \<Rightarrow>
               (case resolve_list ps r n (i + 1) (last_seen + s) xs of
                  Inl e \<Rightarrow> Inl e | Inr ys \<Rightarrow> Inr (x\<lparr>sample := last_seen + s\<rparr> # ys))
           | a_end \<Rightarrow>
               if s > n then Inl (PositionBeforeStart (of_nat (i + 1)))
               else
                 (case resolve_list ps r n (i + 1) (n - s) xs of
                    Inl e \<Rightarrow> Inl e | Inr ys \<Rightarrow> Inr (x\<lparr>sample := n - s\<rparr> # ys))))"

lemma resolve_loop_list:
  "length (pos p) = unat (num_pos p) \<Longrightarrow> i \<le> length (pos p) \<Longrightarrow>
     resolve_loop ps r n p i last_seen =
       (case resolve_list ps r n i last_seen (drop i (pos p)) of
          Inl e \<Rightarrow> Inl e
        | Inr ys \<Rightarrow> Inr (p\<lparr>pos := take i (pos p) @ ys\<rparr>))"
proof (induction ps r n p i last_seen rule: resolve_loop.induct)
  case (1 ps r n p i last_seen)
  show ?case
  proof (cases "i < unat (num_pos p)")
    case False
    with 1(4,5) have "i = length (pos p)" by simp
    with False show ?thesis by (simp add: resolve_loop.simps)
  next
    case True
    with 1(4) have il: "i < length (pos p)" by simp
    let ?x = "pos p ! i"
    have dr: "drop i (pos p) = ?x # drop (Suc i) (pos p)"
      using il by (simp add: Cons_nth_drop_Suc)
    have upd: "\<And>y. take (Suc i) ((pos p)[i := y]) = take i (pos p) @ [y]"
      using il by (simp add: take_Suc_conv_app_nth)
    show ?thesis
    proof (cases "ps r (argstr ?x)")
      case None
      with True dr show ?thesis by (simp add: resolve_loop.simps)
    next
      case (Some a)
      obtain s rest where a: "a = (s, rest)" by (cases a)
      show ?thesis
      proof (cases "anchor ?x")
        case a_start
        let ?p1 = "p\<lparr>pos := (pos p)[i := ?x\<lparr>sample := s\<rparr>]\<rparr>"
        from 1(1) [OF True Some [unfolded a] refl a_start] 1(4) il
        have "resolve_loop ps r n ?p1 (i + 1) s =
            (case resolve_list ps r n (i + 1) s (drop (i + 1) (pos ?p1)) of
               Inl e \<Rightarrow> Inl e
             | Inr ys \<Rightarrow> Inr (?p1\<lparr>pos := take (i + 1) (pos ?p1) @ ys\<rparr>))"
          by simp
        with True Some a a_start dr show ?thesis
          by (simp add: resolve_loop.simps [of ps r n p i] upd split: sum.splits)
      next
        case a_latest
        let ?p1 = "p\<lparr>pos := (pos p)[i := ?x\<lparr>sample := last_seen + s\<rparr>]\<rparr>"
        from 1(2) [OF True Some [unfolded a] refl a_latest] 1(4) il
        have "resolve_loop ps r n ?p1 (i + 1) (last_seen + s) =
            (case resolve_list ps r n (i + 1) (last_seen + s) (drop (i + 1) (pos ?p1)) of
               Inl e \<Rightarrow> Inl e
             | Inr ys \<Rightarrow> Inr (?p1\<lparr>pos := take (i + 1) (pos ?p1) @ ys\<rparr>))"
          by simp
        with True Some a a_latest dr show ?thesis
          by (simp add: resolve_loop.simps [of ps r n p i] upd split: sum.splits)
      next
        case a_end
        show ?thesis
        proof (cases "s > n")
          case True
          with \<open>i < unat (num_pos p)\<close> Some a a_end dr show ?thesis
            by (simp add: resolve_loop.simps [of ps r n p i])
        next
          case False
          let ?p1 = "p\<lparr>pos := (pos p)[i := ?x\<lparr>sample := n - s\<rparr>]\<rparr>"
          from 1(3) [OF True Some [unfolded a] refl a_end False] 1(4) il
          have "resolve_loop ps r n ?p1 (i + 1) (n - s) =
              (case resolve_list ps r n (i + 1) (n - s) (drop (i + 1) (pos ?p1)) of
                 Inl e \<Rightarrow> Inl e
               | Inr ys \<Rightarrow> Inr (?p1\<lparr>pos := take (i + 1) (pos ?p1) @ ys\<rparr>))"
            by simp
          with True False Some a a_end dr show ?thesis
            by (simp add: resolve_loop.simps [of ps r n p i] upd split: sum.splits)
        qed
      qed
    qed
  qed
qed


lemma resolve_list_frame:
  "resolve_list ps r n i last_seen xs = Inr ys \<Longrightarrow>
     length ys = length xs \<and> map argstr ys = map argstr xs \<and> map anchor ys = map anchor xs"
proof (induction xs arbitrary: i last_seen ys)
  case Nil
  then show ?case by simp
next
  case (Cons x xs)
  then show ?case
    by (auto split: option.splits anchor_t.splits sum.splits if_splits)
qed

fun sanity_list :: "nat \<Rightarrow> uint64_t \<Rightarrow> uint64_t list \<Rightarrow> trim_error option" where
  "sanity_list i last_seen [] = None"
| "sanity_list i last_seen (x # xs) =
     (if x < last_seen then Some (MarkersOutOfOrder (of_nat i)) else sanity_list (i + 1) x xs)"

lemma sanity_loop_list:
  "length (pos p) = unat (num_pos p) \<Longrightarrow> i \<le> length (pos p) \<Longrightarrow>
     sanity_loop p i last_seen = sanity_list i last_seen (map sample (drop i (pos p)))"
proof (induction p i last_seen rule: sanity_loop.induct)
  case (1 p i last_seen)
  show ?case
  proof (cases "i < unat (num_pos p)")
    case False
    with 1(2,3) have "i = length (pos p)" by simp
    with False show ?thesis by (simp add: sanity_loop.simps)
  next
    case True
    with 1(2) have il: "i < length (pos p)" by simp
    then have dr: "drop i (pos p) = pos p ! i # drop (Suc i) (pos p)"
      by (simp add: Cons_nth_drop_Suc)
    show ?thesis
    proof (cases "sample (pos p ! i) < last_seen")
      case True
      with \<open>i < unat (num_pos p)\<close> dr show ?thesis by (simp add: sanity_loop.simps)
    next
      case False
      from 1(1) [OF True False 1(2)] il
      have "sanity_loop p (i + 1) (sample (pos p ! i)) =
          sanity_list (i + 1) (sample (pos p ! i)) (map sample (drop (i + 1) (pos p)))"
        by simp
      with True False dr show ?thesis by (simp add: sanity_loop.simps [of p i])
    qed
  qed
qed

lemma sanity_list_None: "sanity_list i last_seen xs = None \<longleftrightarrow> sorted (last_seen # xs)"
proof (induction xs arbitrary: i last_seen)
  case Nil
  show ?case by simp
next
  case (Cons x xs)
  show ?case
  proof (cases "x < last_seen")
    case True
    then show ?thesis by auto
  next
    case False
    then have "last_seen \<le> x" by simp
    with False Cons [of "i + 1" x] show ?thesis by (auto intro: order_trans)
  qed
qed

lemma sanity_list_Some:
  "sanity_list i last_seen xs = Some e \<Longrightarrow>
     \<exists>k<length xs. e = MarkersOutOfOrder (of_nat (i + k)) \<and>
        xs ! k < (last_seen # xs) ! k \<and> sorted (last_seen # take k xs)"
proof (induction xs arbitrary: i last_seen)
  case Nil
  then show ?case by simp
next
  case (Cons x xs)
  show ?case
  proof (cases "x < last_seen")
    case True
    with Cons.prems have "e = MarkersOutOfOrder (of_nat i)" by simp
    with True show ?thesis by (intro exI [of _ 0]) simp
  next
    case False
    with Cons.prems have "sanity_list (i + 1) x xs = Some e" by simp
    from Cons.IH [OF this] obtain k where k: "k < length xs"
      "e = MarkersOutOfOrder (of_nat (i + 1 + k))" "xs ! k < (x # xs) ! k" "sorted (x # take k xs)"
      by blast
    from False have "last_seen \<le> x" by simp
    with k show ?thesis by (intro exI [of _ "Suc k"]) auto
  qed
qed




subsection \<open>What a successful start establishes\<close>

lemma start_Inr:
  assumes "start ps effp0 = Inr (st, effp)"
  shows "\<exists>p. resolve_loop ps (rate (in_signal effp0)) (in_length_of effp0)
            ((priv effp0)\<lparr>copying := False\<rparr>) 0 0 = Inr p \<and>
          sanity_loop p 0 0 = None \<and> priv effp = p \<and> in_signal effp = in_signal effp0 \<and>
          (num_pos p \<noteq> 0 \<and> in_length_of effp0 \<noteq> SOX_UNKNOWN_LEN \<longrightarrow>
             sample (pos p ! 0) \<le> in_length_of effp0 \<and>
             sample (pos p ! unat (num_pos p - 1)) \<le> in_length_of effp0)"
  using assms
  by (auto simp: start_def Let_def not_less split: if_splits sum.splits option.splits)

lemma start_priv:
  assumes st: "start ps effp0 = Inr (st, effp)"
    and wf: "length (pos (priv effp0)) = unat (num_pos (priv effp0))"
  shows "num_pos (priv effp) = num_pos (priv effp0) \<and>
     current_pos (priv effp) = current_pos (priv effp0) \<and>
     samples_read (priv effp) = samples_read (priv effp0) \<and>
     uses_end (priv effp) = uses_end (priv effp0) \<and>
     \<not> copying (priv effp) \<and>
     length (pos (priv effp)) = length (pos (priv effp0)) \<and>
     map argstr (pos (priv effp)) = map argstr (pos (priv effp0)) \<and>
     map anchor (pos (priv effp)) = map anchor (pos (priv effp0)) \<and>
     sorted (map sample (pos (priv effp)))"
proof -
  let ?p0 = "(priv effp0)\<lparr>copying := False\<rparr>"
  from start_Inr [OF st] obtain p where
    r: "resolve_loop ps (rate (in_signal effp0)) (in_length_of effp0) ?p0 0 0 = Inr p"
    and s: "sanity_loop p 0 0 = None" and p: "priv effp = p"
    by blast
  from wf have wf0: "length (pos ?p0) = unat (num_pos ?p0)" by simp
  from r resolve_loop_list [OF wf0, of 0 ps "rate (in_signal effp0)" "in_length_of effp0" 0]
  obtain ys where ys: "resolve_list ps (rate (in_signal effp0)) (in_length_of effp0) 0 0
      (pos (priv effp0)) = Inr ys" and pys: "p = ?p0\<lparr>pos := ys\<rparr>"
    by (auto split: sum.splits)
  note fr = resolve_list_frame [OF ys]
  from pys fr wf have wfp: "length (pos p) = unat (num_pos p)" by simp
  from s sanity_loop_list [OF wfp, of 0 0] have "sorted (0 # map sample (pos p))"
    by (simp add: sanity_list_None)
  with p pys fr show ?thesis by simp
qed

subsection \<open>The copying flag and the cursor\<close>

lemma flow_parity:
  "unat (current_pos (priv effp)) \<le> unat (current_pos (priv (fst (snd (flow effp ib n m))))) \<and>
   (copying (priv (fst (snd (flow effp ib n m)))) \<longleftrightarrow>
      copying (priv effp) \<noteq>
        odd (unat (current_pos (priv (fst (snd (flow effp ib n m))))) -
             unat (current_pos (priv effp))))"
proof -
  obtain st p l where
    "flow_loop (ucast (channels (in_signal effp))) (priv effp)
       \<lparr>ibuf = ib, obuf = [], isamp = 0, osamp = 0,
        len = min n m div ucast (channels (in_signal effp))\<rparr> = (st, p, l)"
    by (metis prod_cases3)
  then show ?thesis
    using flow_loop_parity [of "ucast (channels (in_signal effp))" "priv effp" _ st p l]
    by (simp add: flow_def Let_def)
qed

lemma flow_calls_parity:
  "(copying (priv effp) \<longleftrightarrow> odd (unat (current_pos (priv effp)))) \<Longrightarrow>
     (copying (priv (flow_calls effp cs)) \<longleftrightarrow> odd (unat (current_pos (priv (flow_calls effp cs)))))"
proof (induction cs arbitrary: effp)
  case Nil
  then show ?case by simp
next
  case (Cons c cs)
  obtain ib n m where c: "c = (ib, n, m)" by (cases c)
  let ?e = "fst (snd (flow effp ib n m))"
  from flow_parity [of effp ib n m] Cons.prems
  have "copying (priv ?e) \<longleftrightarrow> odd (unat (current_pos (priv ?e)))"
    by (auto simp: le_iff_add)
  from Cons.IH [OF this] c show ?case by simp
qed

text \<open>
  C5. \<^verbatim>\<open>start\<close> leaves \<open>copying\<close> false. Every call of \<^verbatim>\<open>flow\<close>, in any
  state, moves the cursor forward by the number of positions it crosses and flips
  \<open>copying\<close> once for each of them. So from a new effect (cursor 0) that has been
  started, after any sequence of calls of \<^verbatim>\<open>flow\<close>, \<open>copying\<close> is true exactly when the
  cursor is odd.
\<close>

theorem copying_parity:
  assumes "start lsx_parsesamples effp0 = Inr (st, effp)"
    and "length (pos (priv effp0)) = unat (num_pos (priv effp0))"
    and "current_pos (priv effp0) = 0"
  shows "\<not> copying (priv effp) \<and>
     (copying (priv (flow_calls effp cs)) \<longleftrightarrow>
        odd (unat (current_pos (priv (flow_calls effp cs))))) \<and>
     (\<forall>e ib n m.
        unat (current_pos (priv e)) \<le> unat (current_pos (priv (fst (snd (flow e ib n m))))) \<and>
        (copying (priv (fst (snd (flow e ib n m)))) \<longleftrightarrow>
           copying (priv e) \<noteq>
             odd (unat (current_pos (priv (fst (snd (flow e ib n m))))) -
                  unat (current_pos (priv e)))))"
proof -
  from start_priv [OF assms(1,2)] assms(3)
  have a: "\<not> copying (priv effp)" and "current_pos (priv effp) = 0" by simp_all
  then have "copying (priv effp) \<longleftrightarrow> odd (unat (current_pos (priv effp)))" by simp
  from flow_calls_parity [OF this] a flow_parity show ?thesis by blast
qed

theorem copying_parity_witness:
  "start ex_parser ex_effp0 = Inr (SOX_SUCCESS, ex_effp) \<and>
   current_pos (priv (flow_calls ex_effp [(take 12 ex_stream, 12, 12)])) = 1 \<and>
   copying (priv (flow_calls ex_effp [(take 12 ex_stream, 12, 12)])) \<and>
   odd (unat (current_pos (priv (flow_calls ex_effp [(take 12 ex_stream, 12, 12)]))))"
proof -
  have h2: "length (pos (priv ex_effp0)) = unat (num_pos (priv ex_effp0))" by simp
  have h3: "current_pos (priv ex_effp0) = 0" by simp
  have c: "current_pos (priv (flow_calls ex_effp [(take 12 ex_stream, 12, 12)])) = 1"
    by (simp add: ex_eval)
  from copying_parity [OF ex_start h2 h3, of "[(take 12 ex_stream, 12, 12)]"] c ex_start
  show ?thesis by simp
qed

subsection \<open>A single position at zero\<close>

text \<open>
  C9. When the resolution loop succeeds with exactly one position whose offset is zero,
  \<^verbatim>\<open>start\<close> does not fail: it returns \<open>SOX_EFF_NULL\<close>, the outcome that tells the
  caller that the effect does nothing and can be left out.
\<close>

theorem single_zero_position_is_null:
  assumes "\<not> (in_length_of effp = SOX_UNKNOWN_LEN \<and> uses_end (priv effp))"
    and "resolve_loop lsx_parsesamples (rate (in_signal effp)) (in_length_of effp)
           ((priv effp)\<lparr>copying := False\<rparr>) 0 0 = Inr p"
    and "num_pos p = 1" and "sample (pos p ! 0) = 0"
  shows "start lsx_parsesamples effp = Inr (SOX_EFF_NULL, effp\<lparr>priv := p\<rparr>)"
proof -
  from assms(3,4) have "sanity_loop p 0 0 = None"
    by (simp add: sanity_loop.simps [of p 0] sanity_loop.simps [of p "Suc 0"])
  with assms show ?thesis
    by (simp add: start_def Let_def)
qed

theorem single_zero_position_is_null_witness:
  "start ex_parser
     \<lparr>in_signal = \<lparr>rate = 44100, channels = 2, length_sig = 24\<rparr>,
      out_signal = \<lparr>rate = 44100, channels = 2, length_sig = 0\<rparr>,
      priv = \<lparr>num_pos = 1, pos = [\<lparr>sample = 0, argstr = ''0'', anchor = a_start\<rparr>],
        current_pos = 0, samples_read = 0, copying = False, uses_end = False\<rparr>\<rparr> =
   Inr (SOX_EFF_NULL,
     \<lparr>in_signal = \<lparr>rate = 44100, channels = 2, length_sig = 24\<rparr>,
      out_signal = \<lparr>rate = 44100, channels = 2, length_sig = 0\<rparr>,
      priv = \<lparr>num_pos = 1, pos = [\<lparr>sample = 0, argstr = ''0'', anchor = a_start\<rparr>],
        current_pos = 0, samples_read = 0, copying = False, uses_end = False\<rparr>\<rparr>)"
  by (rule single_zero_position_is_null [THEN trans])
    (simp_all add: in_length_of_def SOX_UNKNOWN_LEN_def resolve_loop.simps)

subsection \<open>The order of the resolved positions\<close>

text \<open>
  C6. Let the resolution loop succeed with the state \<open>p\<close>. If some resolved offset is
  smaller than the one before it, \<^verbatim>\<open>start\<close> fails with the out-of-order message, and
  the index it prints is the first \<open>j\<close> whose offset is smaller than that of \<open>j - 1\<close>.
  If the offsets are non-decreasing, \<^verbatim>\<open>start\<close> does not fail with that message. And
  whenever \<^verbatim>\<open>start\<close> does not fail, the offsets it leaves are non-decreasing.
\<close>

theorem resolved_positions_ordered:
  assumes "length (pos (priv effp)) = unat (num_pos (priv effp))"
    and "\<not> (in_length_of effp = SOX_UNKNOWN_LEN \<and> uses_end (priv effp))"
    and "resolve_loop lsx_parsesamples (rate (in_signal effp)) (in_length_of effp)
           ((priv effp)\<lparr>copying := False\<rparr>) 0 0 = Inr p"
  shows "(\<not> sorted (map sample (pos p)) \<longrightarrow>
            (\<exists>j. start lsx_parsesamples effp = Inl (MarkersOutOfOrder (of_nat j)) \<and>
               0 < j \<and> j < length (pos p) \<and>
               sample (pos p ! j) < sample (pos p ! (j - 1)) \<and>
               sorted (map sample (take j (pos p))))) \<and>
         (sorted (map sample (pos p)) \<longrightarrow>
            (\<forall>i. start lsx_parsesamples effp \<noteq> Inl (MarkersOutOfOrder i))) \<and>
         (\<forall>st effp'. start lsx_parsesamples effp = Inr (st, effp') \<longrightarrow>
            priv effp' = p \<and> sorted (map sample (pos p)))"
proof -
  let ?p0 = "(priv effp)\<lparr>copying := False\<rparr>"
  let ?r = "rate (in_signal effp)" and ?n = "in_length_of effp"
  from assms(1) have wf0: "length (pos ?p0) = unat (num_pos ?p0)" by simp
  from assms(3) resolve_loop_list [OF wf0, of 0 lsx_parsesamples ?r ?n 0]
  obtain ys where ys: "resolve_list lsx_parsesamples ?r ?n 0 0 (pos (priv effp)) = Inr ys"
    and pys: "p = ?p0\<lparr>pos := ys\<rparr>"
    by (auto split: sum.splits)
  from pys resolve_list_frame [OF ys] assms(1) have wfp: "length (pos p) = unat (num_pos p)"
    by simp
  have sl: "sanity_loop p 0 0 = sanity_list 0 0 (map sample (pos p))"
    using sanity_loop_list [OF wfp, of 0 0] by simp
  have srt: "sanity_loop p 0 0 = None \<longleftrightarrow> sorted (map sample (pos p))"
    by (simp add: sl sanity_list_None)
  have c1: "\<exists>j. start lsx_parsesamples effp = Inl (MarkersOutOfOrder (of_nat j)) \<and>
               0 < j \<and> j < length (pos p) \<and>
               sample (pos p ! j) < sample (pos p ! (j - 1)) \<and>
               sorted (map sample (take j (pos p)))"
    if ns: "\<not> sorted (map sample (pos p))"
  proof -
    from ns srt obtain e where e: "sanity_loop p 0 0 = Some e" by auto
    with sl have "sanity_list 0 0 (map sample (pos p)) = Some e" by simp
    from sanity_list_Some [OF this] obtain k where k: "k < length (pos p)"
      "e = MarkersOutOfOrder (of_nat k)"
      "map sample (pos p) ! k < (0 # map sample (pos p)) ! k"
      "sorted (0 # take k (map sample (pos p)))"
      by auto
    from k(3) have k0: "0 < k" by (cases k) auto
    with k(1,3) have lt: "sample (pos p ! k) < sample (pos p ! (k - 1))"
      by (cases k) simp_all
    from k(4) have "sorted (map sample (take k (pos p)))" by (simp add: take_map)
    moreover from assms(2,3) e k(2)
    have "start lsx_parsesamples effp = Inl (MarkersOutOfOrder (of_nat k))"
      by (simp add: start_def Let_def)
    ultimately show ?thesis using k0 k(1) lt by blast
  qed
  have c2: "start lsx_parsesamples effp \<noteq> Inl (MarkersOutOfOrder i)"
    if "sorted (map sample (pos p))" for i
  proof -
    from that srt have "sanity_loop p 0 0 = None" by simp
    with assms(2,3) show ?thesis
      by (simp add: start_def Let_def)
  qed
  have c3: "priv effp' = p \<and> sorted (map sample (pos p))"
    if "start lsx_parsesamples effp = Inr (st, effp')" for st effp'
  proof -
    from start_Inr [OF that] assms(3) have "priv effp' = p" "sanity_loop p 0 0 = None"
      by auto
    with srt show ?thesis by simp
  qed
  from c1 c2 c3 show ?thesis by blast
qed

theorem resolved_positions_ordered_witness:
  "\<not> sorted [10, 5 :: uint64_t] \<and>
   start ex_parser
     \<lparr>in_signal = \<lparr>rate = 44100, channels = 2, length_sig = 24\<rparr>,
      out_signal = \<lparr>rate = 44100, channels = 2, length_sig = 0\<rparr>,
      priv = \<lparr>num_pos = 2,
        pos = [\<lparr>sample = 0, argstr = ''10'', anchor = a_start\<rparr>,
               \<lparr>sample = 0, argstr = ''5'', anchor = a_start\<rparr>],
        current_pos = 0, samples_read = 0, copying = False, uses_end = False\<rparr>\<rparr> =
   Inl (MarkersOutOfOrder 1)"
proof -
  let ?e = "\<lparr>in_signal = \<lparr>rate = 44100, channels = 2, length_sig = 24\<rparr>,
      out_signal = \<lparr>rate = 44100, channels = 2, length_sig = 0\<rparr>,
      priv = \<lparr>num_pos = 2,
        pos = [\<lparr>sample = 0, argstr = ''10'', anchor = a_start\<rparr>,
               \<lparr>sample = 0, argstr = ''5'', anchor = a_start\<rparr>],
        current_pos = 0, samples_read = 0, copying = False, uses_end = False\<rparr>\<rparr>"
  let ?p = "\<lparr>num_pos = 2,
        pos = [\<lparr>sample = 10, argstr = ''10'', anchor = a_start\<rparr>,
               \<lparr>sample = 5, argstr = ''5'', anchor = a_start\<rparr>],
        current_pos = 0, samples_read = 0, copying = False, uses_end = False\<rparr>"
  have h1: "length (pos (priv ?e)) = unat (num_pos (priv ?e))" by simp
  have h2: "\<not> (in_length_of ?e = SOX_UNKNOWN_LEN \<and> uses_end (priv ?e))" by simp
  have h3: "resolve_loop ex_parser (rate (in_signal ?e)) (in_length_of ?e)
      ((priv ?e)\<lparr>copying := False\<rparr>) 0 0 = Inr ?p"
    by (simp add: in_length_of_def SOX_UNKNOWN_LEN_def resolve_loop.simps)
  have ns: "\<not> sorted (map sample (pos ?p))" by simp
  from resolved_positions_ordered [OF h1 h2 h3] ns
  obtain j where j: "start ex_parser ?e = Inl (MarkersOutOfOrder (of_nat j))" "0 < j"
    "j < length (pos ?p)"
    by blast
  from j(2,3) have "j = 1" by simp
  with j(1) show ?thesis by simp
qed

subsection \<open>The resolution loop and the specification's rule\<close>

lemma resolve_list_spec:
  "\<forall>x\<in>set xs. ps r (argstr x) \<noteq> None \<Longrightarrow>
     (case resolve_list ps r n i last_seen xs of Inl e \<Rightarrow> Inl e | Inr ys \<Rightarrow> Inr (map sample ys)) =
       resolve_spec n last_seen i (map (\<lambda>x. (anchor x, fst (the (ps r (argstr x))))) xs)"
proof (induction xs arbitrary: i last_seen)
  case Nil
  show ?case by simp
next
  case (Cons x xs)
  from Cons.prems obtain s rest where s: "ps r (argstr x) = Some (s, rest)" by auto
  from Cons.prems have "\<forall>x\<in>set xs. ps r (argstr x) \<noteq> None" by simp
  note ih = Cons.IH [OF this]
  show ?case
  proof (cases "anchor x")
    case a_start
    with s show ?thesis by (simp add: ih [of "Suc i" s, symmetric] split: sum.splits)
  next
    case a_latest
    with s show ?thesis by (simp add: ih [of "Suc i" "last_seen + s", symmetric] split: sum.splits)
  next
    case a_end
    with s show ?thesis by (simp add: ih [of "Suc i" "n - s", symmetric] split: sum.splits)
  qed
qed

lemma word_add_exact:
  fixes a s :: "'a::len word"
  assumes "a \<le> a + s"
  shows "unat (a + s) = unat a + unat s"
proof -
  from assms have "uint (a + s) = uint a + uint s" by (simp only: uint_plus_simple_iff)
  then have "int (unat (a + s)) = int (unat a + unat s)" by simp
  then show ?thesis by (simp only: of_nat_eq_iff)
qed

lemma resolve_list_exact:
  "resolve_list ps r n i last_seen xs = Inr ys \<Longrightarrow> sorted (last_seen # map sample ys) \<Longrightarrow>
     k < length xs \<Longrightarrow>
     unat (sample (ys ! k)) =
       (case anchor (xs ! k) of
          a_start \<Rightarrow> unat (fst (the (ps r (argstr (xs ! k)))))
        | a_latest \<Rightarrow>
            unat ((last_seen # map sample ys) ! k) + unat (fst (the (ps r (argstr (xs ! k)))))
        | a_end \<Rightarrow> unat n - unat (fst (the (ps r (argstr (xs ! k))))))"
proof (induction xs arbitrary: i last_seen ys k)
  case Nil
  then show ?case by simp
next
  case (Cons x xs)
  from Cons.prems(1) obtain s rest where s: "ps r (argstr x) = Some (s, rest)"
    by (auto split: option.splits)
  let ?res = "case anchor x of a_start \<Rightarrow> s | a_latest \<Rightarrow> last_seen + s | a_end \<Rightarrow> n - s"
  from Cons.prems(1) s obtain ys' where
    ys: "ys = x\<lparr>sample := ?res\<rparr> # ys'"
    and rec: "resolve_list ps r n (i + 1) ?res xs = Inr ys'"
    and ok: "anchor x = a_end \<longrightarrow> s \<le> n"
    by (auto split: anchor_t.splits sum.splits if_splits simp: not_less)
  from Cons.prems(2) ys have le: "last_seen \<le> ?res" and srt: "sorted (?res # map sample ys')"
    by simp_all
  show ?case
  proof (cases k)
    case 0
    show ?thesis
    proof (cases "anchor x")
      case a_start
      with 0 s ys show ?thesis by simp
    next
      case a_latest
      with le have "unat (last_seen + s) = unat last_seen + unat s"
        by (intro word_add_exact) simp
      with 0 s ys a_latest show ?thesis by simp
    next
      case a_end
      with ok have "unat (n - s) = unat n - unat s" by (intro unat_sub) simp
      with 0 s ys a_end show ?thesis by simp
    qed
  next
    case (Suc k')
    with Cons.prems(3) have "k' < length xs" by simp
    from Cons.IH [OF rec srt this] Suc ys show ?thesis
      by (simp cong: anchor_t.case_cong)
  qed
qed

text \<open>
  C2. When every marker text parses, the loop of lines 87-104 gives exactly what the
  specification's rule gives on the anchors and parsed values: the same offsets, in
  order, or the same failure ("position before start", with the number of the marker).
  The loop writes nothing but the offsets. The sums are those of 64-bit counters; when
  the offsets come out in order, as \<^verbatim>\<open>start\<close> checks next, none of them has wrapped:
  as natural numbers each offset is the parsed value, or the previous offset (0 for the
  first marker) plus the parsed value, or the total length minus the parsed value.
\<close>

theorem resolve_loop_follows_spec:
  assumes "length (pos p) = unat (num_pos p)"
    and "\<forall>x\<in>set (pos p). lsx_parsesamples r (argstr x) \<noteq> None"
  shows "(case resolve_loop lsx_parsesamples r total_length p 0 0 of
            Inl e \<Rightarrow> Inl e
          | Inr p' \<Rightarrow> Inr (map sample (pos p'))) =
         resolve_spec total_length 0 0
           (map (\<lambda>x. (anchor x, fst (the (lsx_parsesamples r (argstr x))))) (pos p)) \<and>
         (\<forall>p'. resolve_loop lsx_parsesamples r total_length p 0 0 = Inr p' \<longrightarrow>
            p' = p\<lparr>pos := pos p'\<rparr> \<and>
            map argstr (pos p') = map argstr (pos p) \<and>
            map anchor (pos p') = map anchor (pos p)) \<and>
         (\<forall>p' k. resolve_loop lsx_parsesamples r total_length p 0 0 = Inr p' \<and>
            sorted (map sample (pos p')) \<and> k < length (pos p) \<longrightarrow>
            unat (sample (pos p' ! k)) =
              (case anchor (pos p ! k) of
                 a_start \<Rightarrow> unat (fst (the (lsx_parsesamples r (argstr (pos p ! k)))))
               | a_latest \<Rightarrow>
                   unat ((0 # map sample (pos p')) ! k) +
                   unat (fst (the (lsx_parsesamples r (argstr (pos p ! k)))))
               | a_end \<Rightarrow>
                   unat total_length -
                   unat (fst (the (lsx_parsesamples r (argstr (pos p ! k)))))))"
proof -
  have v: "resolve_loop lsx_parsesamples r total_length p 0 0 =
      (case resolve_list lsx_parsesamples r total_length 0 0 (pos p) of
         Inl e \<Rightarrow> Inl e
       | Inr ys \<Rightarrow> Inr (p\<lparr>pos := ys\<rparr>))"
    using resolve_loop_list [OF assms(1), of 0 lsx_parsesamples r total_length 0]
    by (simp split: sum.splits)
  have "(case resolve_loop lsx_parsesamples r total_length p 0 0 of
            Inl e \<Rightarrow> Inl e
          | Inr p' \<Rightarrow> Inr (map sample (pos p'))) =
        (case resolve_list lsx_parsesamples r total_length 0 0 (pos p) of
            Inl e \<Rightarrow> Inl e
          | Inr ys \<Rightarrow> Inr (map sample ys))"
    by (simp add: v split: sum.splits)
  then have c1: "(case resolve_loop lsx_parsesamples r total_length p 0 0 of
            Inl e \<Rightarrow> Inl e
          | Inr p' \<Rightarrow> Inr (map sample (pos p'))) =
         resolve_spec total_length 0 0
           (map (\<lambda>x. (anchor x, fst (the (lsx_parsesamples r (argstr x))))) (pos p))"
    using resolve_list_spec [of "pos p" lsx_parsesamples r total_length 0 0] assms(2) by simp
  have c2: "p' = p\<lparr>pos := pos p'\<rparr> \<and>
            map argstr (pos p') = map argstr (pos p) \<and>
            map anchor (pos p') = map anchor (pos p)"
    if "resolve_loop lsx_parsesamples r total_length p 0 0 = Inr p'" for p'
  proof -
    from that v obtain ys where
      ys: "resolve_list lsx_parsesamples r total_length 0 0 (pos p) = Inr ys"
      and p': "p' = p\<lparr>pos := ys\<rparr>"
      by (auto split: sum.splits)
    from resolve_list_frame [OF ys] p' show ?thesis by simp
  qed
  have c3: "unat (sample (pos p' ! k)) =
              (case anchor (pos p ! k) of
                 a_start \<Rightarrow> unat (fst (the (lsx_parsesamples r (argstr (pos p ! k)))))
               | a_latest \<Rightarrow>
                   unat ((0 # map sample (pos p')) ! k) +
                   unat (fst (the (lsx_parsesamples r (argstr (pos p ! k)))))
               | a_end \<Rightarrow>
                   unat total_length -
                   unat (fst (the (lsx_parsesamples r (argstr (pos p ! k))))))"
    if "resolve_loop lsx_parsesamples r total_length p 0 0 = Inr p' \<and>
        sorted (map sample (pos p')) \<and> k < length (pos p)" for p' k
  proof -
    from that v obtain ys where
      ys: "resolve_list lsx_parsesamples r total_length 0 0 (pos p) = Inr ys"
      and p': "p' = p\<lparr>pos := ys\<rparr>"
      by (auto split: sum.splits)
    from that p' have "sorted (0 # map sample ys)" and "k < length (pos p)" by simp_all
    from resolve_list_exact [OF ys this] p' show ?thesis
      by (simp cong: anchor_t.case_cong)
  qed
  from c2 have c2': "\<forall>p'. resolve_loop lsx_parsesamples r total_length p 0 0 = Inr p' \<longrightarrow>
            p' = p\<lparr>pos := pos p'\<rparr> \<and>
            map argstr (pos p') = map argstr (pos p) \<and>
            map anchor (pos p') = map anchor (pos p)"
    by blast
  from c3 have c3': "\<forall>p' k. resolve_loop lsx_parsesamples r total_length p 0 0 = Inr p' \<and>
            sorted (map sample (pos p')) \<and> k < length (pos p) \<longrightarrow>
            unat (sample (pos p' ! k)) =
              (case anchor (pos p ! k) of
                 a_start \<Rightarrow> unat (fst (the (lsx_parsesamples r (argstr (pos p ! k)))))
               | a_latest \<Rightarrow>
                   unat ((0 # map sample (pos p')) ! k) +
                   unat (fst (the (lsx_parsesamples r (argstr (pos p ! k)))))
               | a_end \<Rightarrow>
                   unat total_length -
                   unat (fst (the (lsx_parsesamples r (argstr (pos p ! k))))))"
    by blast
  from c1 c2' c3' show ?thesis by (intro conjI)
qed

theorem resolve_loop_follows_spec_witness:
  "(case resolve_loop ex_parser 44100 100
      \<lparr>num_pos = 3,
        pos = [\<lparr>sample = 0, argstr = ''5'', anchor = a_start\<rparr>,
               \<lparr>sample = 0, argstr = ''10'', anchor = a_latest\<rparr>,
               \<lparr>sample = 0, argstr = ''20'', anchor = a_end\<rparr>],
        current_pos = 0, samples_read = 0, copying = False, uses_end = True\<rparr> 0 0 of
      Inl e \<Rightarrow> Inl e
    | Inr p' \<Rightarrow> Inr (map sample (pos p'))) = Inr [5, 15, 80]"
  using resolve_loop_follows_spec [of
      "\<lparr>num_pos = 3,
        pos = [\<lparr>sample = 0, argstr = ''5'', anchor = a_start\<rparr>,
               \<lparr>sample = 0, argstr = ''10'', anchor = a_latest\<rparr>,
               \<lparr>sample = 0, argstr = ''20'', anchor = a_end\<rparr>],
        current_pos = 0, samples_read = 0, copying = False, uses_end = True\<rparr>"
      ex_parser 44100 100]
  by simp

subsection \<open>Splitting the input into several calls\<close>

lemma transfer_simps [simp]:
  "ibuf (transfer chans cp c l) = drop (unat (c * chans)) (ibuf l)"
  "obuf (transfer chans cp c l) = (if cp then obuf l @ take (unat (c * chans)) (ibuf l) else obuf l)"
  "isamp (transfer chans cp c l) = isamp l + c * chans"
  "osamp (transfer chans cp c l) = (if cp then osamp l + c * chans else osamp l)"
  by (simp_all add: transfer_def Let_def)

lemma flow_locals_eqI:
  "ibuf a = ibuf b \<Longrightarrow> obuf a = obuf b \<Longrightarrow> isamp a = isamp b \<Longrightarrow> osamp a = osamp b \<Longrightarrow>
     len a = len b \<Longrightarrow> (a :: flow_locals) = b"
  by simp

text \<open>What is already in the output buffer and in the counters is only added to.\<close>

lemma flow_loop_acc:
  "flow_loop chans p (l\<lparr>obuf := ob @ obuf l, isamp := n + isamp l, osamp := m + osamp l\<rparr>) =
     (case flow_loop chans p l of
        (st, p', l') \<Rightarrow>
          (st, p', l'\<lparr>obuf := ob @ obuf l', isamp := n + isamp l', osamp := m + osamp l'\<rparr>))"
proof (induction chans p l rule: flow_loop.induct)
  case (1 chans p l)
  let ?l = "l\<lparr>obuf := ob @ obuf l, isamp := n + isamp l, osamp := m + osamp l\<rparr>"
  let ?q = "cross_pos p"
  show ?case
  proof (cases "len l = 0")
    case True
    then show ?thesis by (simp add: flow_loop_zero)
  next
    case nz: False
    show ?thesis
    proof (cases "num_pos ?q \<le> current_pos ?q \<and> \<not> copying ?q")
      case True
      with nz show ?thesis by (simp add: flow_loop_eof)
    next
      case False
      let ?c = "chunk_of ?q (len l)"
      let ?r = "?q\<lparr>samples_read := samples_read ?q + ?c\<rparr>"
      let ?t = "transfer chans (copying ?q) ?c l"
      have t: "transfer chans (copying ?q) ?c ?l =
          ?t\<lparr>obuf := ob @ obuf ?t, isamp := n + isamp ?t, osamp := m + osamp ?t\<rparr>"
        by (rule flow_locals_eqI) (simp_all add: add.assoc)
      from nz have nz': "len ?l \<noteq> 0" by simp
      have "flow_loop chans p ?l = flow_loop chans ?r (transfer chans (copying ?q) ?c ?l)"
        using flow_loop_step [OF nz' False, of chans] by simp
      also have "\<dots> = (case flow_loop chans ?r ?t of
        (st, p', l') \<Rightarrow>
          (st, p', l'\<lparr>obuf := ob @ obuf l', isamp := n + isamp l', osamp := m + osamp l'\<rparr>))"
        unfolding t by (rule 1 [OF nz False])
      also have "flow_loop chans ?r ?t = flow_loop chans p l"
        using flow_loop_step [OF nz False, of chans] by simp
      finally show ?thesis .
    qed
  qed
qed


lemma unat_mult_le:
  fixes c n k :: "'a::len word"
  assumes "c \<le> n" and "unat n * unat k < 2 ^ LENGTH('a)"
  shows "unat (c * k) = unat c * unat k"
proof -
  from assms(1) have "unat c \<le> unat n" by (simp add: word_le_nat_alt)
  then have "unat c * unat k \<le> unat n * unat k" by (rule mult_le_mono1)
  from this assms(2) have "unat c * unat k < 2 ^ LENGTH('a)" by (rule le_less_trans)
  then show ?thesis by (simp add: unat_mult_lem)
qed

lemma unat_mult_le64:
  fixes c n k :: size_t
  shows "c \<le> n \<Longrightarrow> unat n * unat k < 2 ^ 64 \<Longrightarrow> unat (c * k) = unat c * unat k"
  using unat_mult_le [of c n k] by simp

lemma word_sub_le_self:
  fixes c n :: "'a::len word"
  shows "c \<le> n \<Longrightarrow> n - c \<le> n"
  by (simp add: word_le_nat_alt unat_sub)

text \<open>What one run of the loop does to the input side and to the frame count.\<close>

lemma flow_loop_io:
  "flow_loop chans p l = (st, p', l') \<Longrightarrow> unat (len l) * unat chans < 2 ^ 64 \<Longrightarrow>
     len l' \<le> len l \<and>
     isamp l' = isamp l + (len l - len l') * chans \<and>
     ibuf l' = drop (unat (len l - len l') * unat chans) (ibuf l) \<and>
     (st = SOX_SUCCESS \<and> len l' = 0 \<or> st = SOX_EOF \<and> len l' \<noteq> 0)"
proof (induction chans p l arbitrary: st p' l' rule: flow_loop.induct)
  case (1 chans p l)
  let ?q = "cross_pos p"
  show ?case
  proof (cases "len l = 0")
    case True
    with 1(2) show ?thesis by (simp add: flow_loop_zero)
  next
    case nz: False
    show ?thesis
    proof (cases "num_pos ?q \<le> current_pos ?q \<and> \<not> copying ?q")
      case True
      with nz 1(2) show ?thesis by (simp add: flow_loop_eof)
    next
      case False
      let ?c = "chunk_of ?q (len l)"
      let ?r = "?q\<lparr>samples_read := samples_read ?q + ?c\<rparr>"
      let ?t = "transfer chans (copying ?q) ?c l"
      have cl: "?c \<le> len l" by (rule chunk_of_le)
      then have sub: "len l - ?c \<le> len l" by (rule word_sub_le_self)
      from 1(2) have run: "flow_loop chans ?r ?t = (st, p', l')"
        using flow_loop_step [OF nz False, of chans] by simp
      from sub have "unat (len l - ?c) \<le> unat (len l)" by (simp add: word_le_nat_alt)
      then have "unat (len l - ?c) * unat chans \<le> unat (len l) * unat chans"
        by (rule mult_le_mono1)
      from this 1(3) have "unat (len l - ?c) * unat chans < 2 ^ 64" by (rule le_less_trans)
      then have "unat (len ?t) * unat chans < 2 ^ 64" by simp
      from 1(1) [OF nz False run this]
      have a: "len l' \<le> len l - ?c"
        and b: "isamp l' = isamp l + ?c * chans + (len l - ?c - len l') * chans"
        and c: "ibuf l' = drop (unat (len l - ?c - len l') * unat chans)
                  (drop (unat (?c * chans)) (ibuf l))"
        and d: "st = SOX_SUCCESS \<and> len l' = 0 \<or> st = SOX_EOF \<and> len l' \<noteq> 0"
        by simp_all
      from a sub have le: "len l' \<le> len l" by (rule order_trans)
      have m: "unat (?c * chans) = unat ?c * unat chans"
        using cl 1(3) by (rule unat_mult_le64)
      from a cl have n1: "unat (len l') + unat ?c \<le> unat (len l)"
        by (simp add: word_le_nat_alt unat_sub)
      then have n2: "unat (len l - ?c - len l') = unat (len l) - unat ?c - unat (len l')"
        using a cl by (simp add: unat_sub)
      from le have n3: "unat (len l - len l') = unat (len l) - unat (len l')"
        by (simp add: unat_sub)
      from n1 have "unat ?c + (unat (len l) - unat ?c - unat (len l')) =
          unat (len l) - unat (len l')"
        by arith
      then have "unat ?c * unat chans + (unat (len l) - unat ?c - unat (len l')) * unat chans =
          (unat (len l) - unat (len l')) * unat chans"
        by (simp only: add_mult_distrib [symmetric])
      with c m n2 n3 have c': "ibuf l' = drop (unat (len l - len l') * unat chans) (ibuf l)"
        by (simp add: add.commute)
      from b have b': "isamp l' = isamp l + (len l - len l') * chans"
        by (simp add: algebra_simps)
      from le b' c' d show ?thesis by simp
    qed
  qed
qed


lemma min_add_word:
  fixes a b d :: "'a::len word"
  assumes "a < d" and "unat a + unat b < 2 ^ LENGTH('a)"
  shows "min (a + b) d = a + min b (d - a)"
proof -
  from assms(2) have ab: "unat (a + b) = unat a + unat b" by (simp add: unat_add_lem)
  from assms(1) have ad: "unat a < unat d" by (simp add: word_less_nat_alt)
  from assms(1) have da: "unat (d - a) = unat d - unat a" by (simp add: unat_sub)
  show ?thesis
  proof (cases "b \<le> d - a")
    case True
    with da have "unat b \<le> unat d - unat a" by (simp add: word_le_nat_alt)
    with ab ad have "a + b \<le> d" by (simp add: word_le_nat_alt)
    with True show ?thesis by (simp add: min_def)
  next
    case False
    with da have "unat d - unat a < unat b" by (simp add: word_le_nat_alt)
    with ab ad have "\<not> a + b \<le> d" by (simp add: word_le_nat_alt)
    with False show ?thesis by (simp add: min_def)
  qed
qed

lemma unat_add64:
  fixes a b :: size_t
  shows "unat a + unat b < 2 ^ 64 \<Longrightarrow> unat (a + b) = unat a + unat b"
  using unat_add_lem [of a b] by simp

lemma unat_mult64:
  fixes a b :: size_t
  shows "unat a * unat b < 2 ^ 64 \<Longrightarrow> unat (a * b) = unat a * unat b"
  using unat_mult_lem [of a b] by simp

lemma transfer_twice:
  assumes "unat a + unat c < 2 ^ 64" and "(unat a + unat c) * unat chans < 2 ^ 64"
  shows "transfer chans cp c ((transfer chans cp a l)\<lparr>len := n\<rparr>) =
     (transfer chans cp (a + c) l)\<lparr>len := n - c\<rparr>"
proof -
  from assms(1) have s: "unat (a + c) = unat a + unat c" by (rule unat_add64)
  from assms(2) s have "unat (a + c) * unat chans < 2 ^ 64" by simp
  then have "unat ((a + c) * chans) = unat (a + c) * unat chans" by (rule unat_mult64)
  with s have m: "unat ((a + c) * chans) = (unat a + unat c) * unat chans" by simp
  have "unat a * unat chans \<le> (unat a + unat c) * unat chans" by simp
  from this assms(2) have "unat a * unat chans < 2 ^ 64" by (rule le_less_trans)
  then have ma: "unat (a * chans) = unat a * unat chans" by (rule unat_mult64)
  have "unat c * unat chans \<le> (unat a + unat c) * unat chans" by simp
  from this assms(2) have "unat c * unat chans < 2 ^ 64" by (rule le_less_trans)
  then have mc: "unat (c * chans) = unat c * unat chans" by (rule unat_mult64)
  have e: "unat ((a + c) * chans) = unat (a * chans) + unat (c * chans)"
    by (simp add: m ma mc add_mult_distrib)
  let ?lhs = "transfer chans cp c ((transfer chans cp a l)\<lparr>len := n\<rparr>)"
  let ?rhs = "(transfer chans cp (a + c) l)\<lparr>len := n - c\<rparr>"
  show ?thesis
  proof (rule flow_locals_eqI)
    show "ibuf ?lhs = ibuf ?rhs" by (simp add: e add.commute)
    show "obuf ?lhs = obuf ?rhs" by (simp add: e take_add)
    show "isamp ?lhs = isamp ?rhs" by (simp add: distrib_right)
    show "osamp ?lhs = osamp ?rhs" by (simp add: distrib_right)
    show "len ?lhs = len ?rhs" by simp
  qed
qed


lemma chunk_of_split:
  fixes a b :: size_t
  assumes "unat a + unat b < 2 ^ 64"
    and "chunk_of q (a + b) \<noteq> chunk_of q a"
  shows "chunk_of q a = a \<and> b \<noteq> 0 \<and>
     cross_pos (q\<lparr>samples_read := samples_read q + a\<rparr>) = q\<lparr>samples_read := samples_read q + a\<rparr> \<and>
     chunk_of q (a + b) = a + chunk_of (q\<lparr>samples_read := samples_read q + a\<rparr>) b"
proof -
  let ?q2 = "q\<lparr>samples_read := samples_read q + a\<rparr>"
  from assms(2) have b: "b \<noteq> 0" by auto
  from assms(1) have ab: "unat (a + b) = unat a + unat b" by (rule unat_add64)
  then have le: "a \<le> a + b" by (simp add: word_le_nat_alt)
  show ?thesis
  proof (cases "current_pos q < num_pos q")
    case False
    then have "cross_pos ?q2 = ?q2" by (intro cross_pos_not_at) simp
    with False b show ?thesis by (simp add: chunk_of_def)
  next
    case True
    let ?d = "sample (pos q ! unat (current_pos q)) - samples_read q"
    have ad: "a < ?d"
    proof (rule ccontr)
      assume "\<not> a < ?d"
      then have "?d \<le> a" by simp
      from this le have "?d \<le> a + b" by (rule order_trans)
      then have "min (a + b) ?d = ?d" by (rule min_absorb2)
      moreover from \<open>?d \<le> a\<close> have "min a ?d = ?d" by (rule min_absorb2)
      ultimately show False using True assms(2) by (simp add: chunk_of_def)
    qed
    then have "sample (pos q ! unat (current_pos q)) \<noteq> samples_read q + a" by auto
    then have cr: "cross_pos ?q2 = ?q2" by (intro cross_pos_not_at) simp
    from ad have "min a ?d = a" by (intro min_absorb1) simp
    with True have c1: "chunk_of q a = a" by (simp add: chunk_of_def)
    from True have c2: "chunk_of ?q2 b = min b (?d - a)"
      by (simp add: chunk_of_def diff_diff_eq)
    from True have c3: "chunk_of q (a + b) = min (a + b) ?d" by (simp add: chunk_of_def)
    from ad assms(1) have "min (a + b) ?d = a + min b (?d - a)"
      using min_add_word [of a ?d b] by simp
    with c2 c3 have "chunk_of q (a + b) = a + chunk_of ?q2 b" by simp
    with c1 b cr show ?thesis by simp
  qed
qed

text \<open>
  Frames given in one call or in two: the loop over \<open>a + b\<close> frames does what the loop
  over \<open>a\<close> frames followed by the loop over \<open>b\<close> frames does.
\<close>

lemma flow_loop_split:
  "unat (len l) + unat b < 2 ^ 64 \<Longrightarrow> (unat (len l) + unat b) * unat chans < 2 ^ 64 \<Longrightarrow>
     flow_loop chans p (l\<lparr>len := len l + b\<rparr>) =
       (case flow_loop chans p l of
          (st, p', l') \<Rightarrow>
            if st = SOX_EOF then (SOX_EOF, p', l'\<lparr>len := len l' + b\<rparr>)
            else flow_loop chans p' (l'\<lparr>len := b\<rparr>))"
proof (induction chans p l rule: flow_loop.induct)
  case (1 chans p l)
  let ?a = "len l"
  let ?L = "l\<lparr>len := ?a + b\<rparr>"
  let ?q = "cross_pos p"
  from 1(2) have ab: "unat (?a + b) = unat ?a + unat b" by (rule unat_add64)
  show ?case
  proof (cases "?a = 0")
    case True
    then show ?thesis by (simp add: flow_loop_zero)
  next
    case nz: False
    with ab have nzL: "len ?L \<noteq> 0" by (auto simp: unat_eq_0 [symmetric])
    show ?thesis
    proof (cases "num_pos ?q \<le> current_pos ?q \<and> \<not> copying ?q")
      case True
      with nz nzL show ?thesis by (simp add: flow_loop_eof)
    next
      case False
      let ?cp = "copying ?q"
      let ?c = "chunk_of ?q ?a"
      let ?c' = "chunk_of ?q (?a + b)"
      let ?r = "?q\<lparr>samples_read := samples_read ?q + ?c\<rparr>"
      let ?t = "transfer chans ?cp ?c l"
      have stepL: "flow_loop chans p ?L =
          flow_loop chans (?q\<lparr>samples_read := samples_read ?q + ?c'\<rparr>) (transfer chans ?cp ?c' ?L)"
        using flow_loop_step [OF nzL False, of chans] by simp
      have stepR: "flow_loop chans p l = flow_loop chans ?r ?t"
        using flow_loop_step [OF nz False, of chans] by simp
      show ?thesis
      proof (cases "?c' = ?c")
        case True
        have cl: "?c \<le> ?a" by (rule chunk_of_le)
        then have "unat (?a - ?c) \<le> unat ?a" by (simp add: unat_sub)
        with 1(2,3) have h1: "unat (len ?t) + unat b < 2 ^ 64"
          and h2: "(unat (len ?t) + unat b) * unat chans < 2 ^ 64"
          by (simp_all add: le_less_trans [OF mult_le_mono1, of "unat (?a - ?c) + unat b" "unat ?a + unat b"])
        have t: "transfer chans ?cp ?c ?L = ?t\<lparr>len := len ?t + b\<rparr>"
          by (rule flow_locals_eqI) simp_all
        from 1(1) [OF nz False h1 h2] stepL stepR True t show ?thesis by simp
      next
        case ne: False
        from chunk_of_split [OF 1(2) ne]
        have ca: "?c = ?a" and b: "b \<noteq> 0"
          and cr: "cross_pos (?q\<lparr>samples_read := samples_read ?q + ?a\<rparr>) =
              ?q\<lparr>samples_read := samples_read ?q + ?a\<rparr>"
          and c': "?c' = ?a + chunk_of (?q\<lparr>samples_read := samples_read ?q + ?a\<rparr>) b"
          by simp_all
        let ?q2 = "?q\<lparr>samples_read := samples_read ?q + ?a\<rparr>"
        let ?c2 = "chunk_of ?q2 b"
        let ?t2 = "(transfer chans ?cp ?a l)\<lparr>len := b\<rparr>"
        have c2b: "unat ?c2 \<le> unat b"
          using chunk_of_le [of ?q2 b] by (simp add: word_le_nat_alt)
        with 1(2) have s1: "unat ?a + unat ?c2 < 2 ^ 64" by simp
        from c2b have "(unat ?a + unat ?c2) * unat chans \<le> (unat ?a + unat b) * unat chans"
          by (intro mult_le_mono1) simp
        from this 1(3) have s2: "(unat ?a + unat ?c2) * unat chans < 2 ^ 64"
          by (rule le_less_trans)
        have "flow_loop chans p l = (SOX_SUCCESS, ?q2, transfer chans ?cp ?a l)"
          using stepR ca by (simp add: flow_loop_zero)
        then have "(case flow_loop chans p l of
          (st, p', l') \<Rightarrow>
            if st = SOX_EOF then (SOX_EOF, p', l'\<lparr>len := len l' + b\<rparr>)
            else flow_loop chans p' (l'\<lparr>len := b\<rparr>)) = flow_loop chans ?q2 ?t2"
          by simp
        also have "\<dots> = flow_loop chans (?q2\<lparr>samples_read := samples_read ?q2 + ?c2\<rparr>)
            (transfer chans (copying ?q2) ?c2 ?t2)"
        proof -
          have "len ?t2 \<noteq> 0" using b by simp
          moreover have "\<not> (num_pos (cross_pos ?q2) \<le> current_pos (cross_pos ?q2) \<and>
              \<not> copying (cross_pos ?q2))"
            using False by (simp only: cr) simp
          ultimately show ?thesis
            using flow_loop_step [of ?t2 ?q2 chans] by (simp only: cr) simp
        qed
        also have "transfer chans (copying ?q2) ?c2 ?t2 =
            (transfer chans ?cp (?a + ?c2) l)\<lparr>len := b - ?c2\<rparr>"
          using transfer_twice [OF s1 s2, where cp = ?cp and l = l and n = b] by simp
        also have "\<dots> = transfer chans ?cp ?c' ?L"
          by (rule flow_locals_eqI) (simp_all add: c')
        also have "?q2\<lparr>samples_read := samples_read ?q2 + ?c2\<rparr> =
            ?q\<lparr>samples_read := samples_read ?q + ?c'\<rparr>"
          by (simp add: c' add.assoc)
        finally show ?thesis using stepL by simp
      qed
    qed
  qed
qed

lemma frames_fit:
  fixes n c :: size_t
  shows "unat (n div c) * unat c \<le> unat n"
  by (simp add: unat_div)

lemma flow_as_loop:
  "\<exists>st p' l'.
     flow_loop (ucast (channels (in_signal effp))) (priv effp)
       \<lparr>ibuf = ib, obuf = [], isamp = 0, osamp = 0,
        len = min n m div ucast (channels (in_signal effp))\<rparr> = (st, p', l') \<and>
     flow effp ib n m = (st, effp\<lparr>priv := p'\<rparr>, obuf l', isamp l', osamp l')"
proof -
  obtain st p' l' where
    "flow_loop (ucast (channels (in_signal effp))) (priv effp)
       \<lparr>ibuf = ib, obuf = [], isamp = 0, osamp = 0,
        len = min n m div ucast (channels (in_signal effp))\<rparr> = (st, p', l')"
    by (metis prod_cases3)
  then show ?thesis by (simp add: flow_def Let_def)
qed

lemma of_nat_unat64: "x < 2 ^ 64 \<Longrightarrow> unat (of_nat x :: size_t) = x"
  by (simp add: unat_of_nat)

lemma unat_ucast_chans: "unat (ucast (c :: unsigned) :: size_t) = unat c"
proof -
  have "unat c < 2 ^ 32" using unsigned_less [of c] by simp
  then have "unat c < 2 ^ 64" by simp
  then show ?thesis
    by (simp add: unsigned_ucast_eq take_bit_nat_eq_self)
qed

lemma le_mult_bound:
  fixes m c n B :: nat
  assumes "1 \<le> c" and "m * c \<le> n" and "n < B"
  shows "m < B"
proof -
  from assms(1) have "m \<le> m * c" by simp
  with assms(2,3) show ?thesis by linarith
qed

lemma run_flow_as_loop:
  assumes "channels (in_signal effp) \<noteq> 0" and "length stream < 2 ^ 64"
    and "run_flow effp stream bs = (st, effp', out, rest)"
  shows "\<exists>M l'. M * unat (ucast (channels (in_signal effp)) :: size_t) \<le> length stream \<and>
     flow_loop (ucast (channels (in_signal effp))) (priv effp)
       \<lparr>ibuf = stream, obuf = [], isamp = 0, osamp = 0, len = of_nat M\<rparr> =
         (st, priv effp', l') \<and>
     effp' = effp\<lparr>priv := priv effp'\<rparr> \<and> obuf l' = out \<and> ibuf l' = rest"
  using assms
proof (induction bs arbitrary: effp stream st effp' out rest)
  case Nil
  then have "st = SOX_SUCCESS" "effp' = effp" "out = []" "rest = stream" by simp_all
  then show ?case
    by (intro exI [of _ 0] exI [of _ "\<lparr>ibuf = stream, obuf = [], isamp = 0, osamp = 0, len = 0\<rparr>"])
      (simp add: flow_loop_zero)
next
  case (Cons b bs)
  obtain isize osize where b: "b = (isize, osize)" by (cases b)
  let ?ch = "ucast (channels (in_signal effp)) :: size_t"
  let ?p = "priv effp"
  let ?k = "min (unat isize) (length stream)"
  let ?i0 = "of_nat ?k :: size_t"
  let ?n = "min ?i0 osize div ?ch"
  let ?l0 = "\<lparr>ibuf = stream, obuf = [], isamp = 0, osamp = 0, len = ?n\<rparr>"
  have ch1: "1 \<le> unat ?ch"
    using Cons.prems(1) by (simp add: unat_ucast_chans Suc_le_eq unat_gt_0)
  have "unat isize < 2 ^ 64" using unsigned_less [of isize] by simp
  then have "?k < 2 ^ 64" by simp
  then have k: "unat ?i0 = ?k" by (rule of_nat_unat64)
  have "unat ?n * unat ?ch \<le> unat (min ?i0 osize)" by (rule frames_fit)
  also have "\<dots> \<le> unat ?i0" by (simp add: word_le_nat_alt [symmetric])
  finally have nk: "unat ?n * unat ?ch \<le> length stream" using k by simp
  with Cons.prems(2) have nb2: "unat ?n * unat ?ch < 2 ^ 64" by simp
  then have nb: "unat (len ?l0) * unat ?ch < 2 ^ 64" by simp
  from flow_as_loop [of effp stream ?i0 osize] obtain st1 p1 l1 where
    loop1: "flow_loop ?ch ?p ?l0 = (st1, p1, l1)"
    and flow1: "flow effp stream ?i0 osize = (st1, effp\<lparr>priv := p1\<rparr>, obuf l1, isamp l1, osamp l1)"
    by blast
  from flow_loop_io [OF loop1 nb]
  have le1: "len l1 \<le> ?n" and is1: "isamp l1 = (?n - len l1) * ?ch"
    and ib1: "ibuf l1 = drop (unat (?n - len l1) * unat ?ch) stream"
    and st1: "st1 = SOX_SUCCESS \<and> len l1 = 0 \<or> st1 = SOX_EOF \<and> len l1 \<noteq> 0"
    by simp_all
  have "?n - len l1 \<le> ?n" using le1 by (rule word_sub_le_self)
  from this nb2 have "unat ((?n - len l1) * ?ch) = unat (?n - len l1) * unat ?ch"
    by (rule unat_mult_le64)
  with is1 ib1 have dr: "drop (unat (isamp l1)) stream = ibuf l1" by simp
  show ?case
  proof (cases "st1 = SOX_EOF")
    case True
    with Cons.prems(3) b flow1 dr
    have r: "st = SOX_EOF" "effp' = effp\<lparr>priv := p1\<rparr>" "out = obuf l1" "rest = ibuf l1"
      by simp_all
    have "of_nat (unat ?n) = ?n" by simp
    with loop1 True r nk show ?thesis
      by (intro exI [of _ "unat ?n"] exI [of _ l1]) simp
  next
    case False
    with st1 have s1: "st1 = SOX_SUCCESS" and z1: "len l1 = 0" by auto
    let ?e1 = "effp\<lparr>priv := p1\<rparr>"
    let ?s1 = "ibuf l1"
    from ib1 z1 have s1d: "?s1 = drop (unat ?n * unat ?ch) stream" by simp
    obtain st2 e2 out2 rest2 where run2: "run_flow ?e1 ?s1 bs = (st2, e2, out2, rest2)"
      by (metis prod_cases4)
    with Cons.prems(3) b flow1 False dr
    have r: "st = st2" "effp' = e2" "out = obuf l1 @ out2" "rest = rest2"
      by simp_all
    have c1: "channels (in_signal ?e1) \<noteq> 0" using Cons.prems(1) by simp
    have len1: "length ?s1 = length stream - unat ?n * unat ?ch" by (simp add: s1d)
    with Cons.prems(2) have l1': "length ?s1 < 2 ^ 64" by simp
    from Cons.IH [OF c1 l1' run2] obtain M2 l2 where
      m2: "M2 * unat ?ch \<le> length ?s1"
      and loop2: "flow_loop ?ch p1
          \<lparr>ibuf = ?s1, obuf = [], isamp = 0, osamp = 0, len = of_nat M2\<rparr> = (st2, priv e2, l2)"
      and e2: "e2 = ?e1\<lparr>priv := priv e2\<rparr>" and o2: "obuf l2 = out2" and i2: "ibuf l2 = rest2"
      by auto
    let ?M = "unat ?n + M2"
    from m2 len1 nk have "unat ?n * unat ?ch + M2 * unat ?ch \<le> length stream"
      by linarith
    then have mk: "?M * unat ?ch \<le> length stream"
      by (simp only: add_mult_distrib)
    from ch1 mk Cons.prems(2) have mb: "?M < 2 ^ 64" by (rule le_mult_bound)
    then have "M2 < 2 ^ 64" by linarith
    then have um2: "unat (of_nat M2 :: size_t) = M2" by (rule of_nat_unat64)
    have ofm: "(of_nat ?M :: size_t) = ?n + of_nat M2" by simp
    from mb have h1: "unat (len ?l0) + unat (of_nat M2 :: size_t) < 2 ^ 64"
      by (simp only: um2 flow_locals.select_convs)
    from mk Cons.prems(2) have "?M * unat ?ch < 2 ^ 64" by (rule le_less_trans)
    then have h2: "(unat (len ?l0) + unat (of_nat M2 :: size_t)) * unat ?ch < 2 ^ 64"
      by (simp only: um2 flow_locals.select_convs)
    let ?lz = "\<lparr>ibuf = ?s1, obuf = [], isamp = 0, osamp = 0, len = of_nat M2\<rparr>"
    have lz: "l1\<lparr>len := of_nat M2\<rparr> =
        ?lz\<lparr>obuf := obuf l1 @ obuf ?lz, isamp := isamp l1 + isamp ?lz,
            osamp := osamp l1 + osamp ?lz\<rparr>"
      by (rule flow_locals_eqI) simp_all
    have "flow_loop ?ch ?p (?l0\<lparr>len := len ?l0 + of_nat M2\<rparr>) =
        flow_loop ?ch p1 (l1\<lparr>len := of_nat M2\<rparr>)"
      using flow_loop_split [OF h1 h2, of ?p] loop1 False by simp
    also have "\<dots> = (st2, priv e2,
        l2\<lparr>obuf := obuf l1 @ obuf l2, isamp := isamp l1 + isamp l2,
           osamp := osamp l1 + osamp l2\<rparr>)"
      unfolding lz using flow_loop_acc [where chans = ?ch and p = p1 and ob = "obuf l1" and l = ?lz
          and n = "isamp l1" and m = "osamp l1"] loop2
      by simp
    finally have "flow_loop ?ch ?p
        \<lparr>ibuf = stream, obuf = [], isamp = 0, osamp = 0, len = of_nat ?M\<rparr> =
        (st2, priv e2,
         l2\<lparr>obuf := obuf l1 @ obuf l2, isamp := isamp l1 + isamp l2,
            osamp := osamp l1 + osamp l2\<rparr>)"
      by (simp add: ofm)
    moreover from e2 have "e2 = effp\<lparr>priv := priv e2\<rparr>"
      by (metis sox_effect_t.update_convs(3) sox_effect_t.surjective)
    ultimately show ?thesis
      using mk r o2 i2
      by (intro exI [of _ ?M]
          exI [of _ "l2\<lparr>obuf := obuf l1 @ obuf l2, isamp := isamp l1 + isamp l2,
            osamp := osamp l1 + osamp l2\<rparr>"]) simp
  qed
qed


lemma run_flow_complete:
  assumes ch0: "channels (in_signal effp) \<noteq> 0" and n64: "length stream < 2 ^ 64"
    and run: "run_flow effp stream bs = (st, effp', out, rest)"
    and fin: "st = SOX_EOF \<or> length rest < unat (channels (in_signal effp))"
  shows "\<exists>l'. flow_loop (ucast (channels (in_signal effp))) (priv effp)
       \<lparr>ibuf = stream, obuf = [], isamp = 0, osamp = 0,
        len = of_nat (length stream) div ucast (channels (in_signal effp))\<rparr> =
         (st, priv effp', l') \<and>
     obuf l' = out \<and> effp' = effp\<lparr>priv := priv effp'\<rparr>"
proof -
  let ?ch = "ucast (channels (in_signal effp)) :: size_t"
  let ?p = "priv effp"
  let ?N = "length stream"
  let ?big = "of_nat ?N div ?ch :: size_t"
  have uch: "unat ?ch = unat (channels (in_signal effp))" by (rule unat_ucast_chans)
  with ch0 have ch1: "1 \<le> unat ?ch" by (simp add: Suc_le_eq unat_gt_0)
  from run_flow_as_loop [OF ch0 n64 run] obtain M l' where
    mk: "M * unat ?ch \<le> ?N"
    and loop: "flow_loop ?ch ?p
        \<lparr>ibuf = stream, obuf = [], isamp = 0, osamp = 0, len = of_nat M\<rparr> = (st, priv effp', l')"
    and e: "effp' = effp\<lparr>priv := priv effp'\<rparr>" and ob: "obuf l' = out" and ib: "ibuf l' = rest"
    by blast
  let ?lM = "\<lparr>ibuf = stream, obuf = [], isamp = 0, osamp = 0, len = of_nat M :: size_t\<rparr>"
  from ch1 mk n64 have m64: "M < 2 ^ 64" by (rule le_mult_bound)
  then have um: "unat (of_nat M :: size_t) = M" by (rule of_nat_unat64)
  from n64 have un: "unat (of_nat ?N :: size_t) = ?N" by (rule of_nat_unat64)
  have ubig: "unat ?big = ?N div unat ?ch" by (simp add: unat_div un)
  from ch1 mk have mle: "M \<le> ?N div unat ?ch"
    by (simp add: less_eq_div_iff_mult_less_eq)
  let ?b = "?big - of_nat M"
  from mle um ubig have "of_nat M \<le> ?big" by (simp add: word_le_nat_alt)
  then have "unat ?b = unat ?big - unat (of_nat M :: size_t)" by (rule unat_sub)
  with um ubig have ub: "unat ?b = ?N div unat ?ch - M" by simp
  have big: "of_nat M + ?b = ?big" by simp
  have "?N div unat ?ch * unat ?ch \<le> ?N" by simp
  from this n64 have bb: "?N div unat ?ch * unat ?ch < 2 ^ 64" by (rule le_less_trans)
  from ch1 order_refl bb have "?N div unat ?ch < 2 ^ 64" by (rule le_mult_bound)
  moreover from mle have sum: "unat (len ?lM) + unat ?b = ?N div unat ?ch"
    by (simp add: um ub)
  ultimately have h1: "unat (len ?lM) + unat ?b < 2 ^ 64" by simp
  from sum bb have h2: "(unat (len ?lM) + unat ?b) * unat ?ch < 2 ^ 64" by simp
  from mk n64 have "M * unat ?ch < 2 ^ 64" by (rule le_less_trans)
  then have mb: "unat (len ?lM) * unat ?ch < 2 ^ 64" by (simp add: um)
  from flow_loop_io [OF loop mb]
  have io: "ibuf l' = drop (unat (of_nat M - len l') * unat ?ch) stream"
    and sts: "st = SOX_SUCCESS \<and> len l' = 0 \<or> st = SOX_EOF \<and> len l' \<noteq> 0"
    by simp_all
  have sp: "flow_loop ?ch ?p (?lM\<lparr>len := len ?lM + ?b\<rparr>) =
      (if st = SOX_EOF then (SOX_EOF, priv effp', l'\<lparr>len := len l' + ?b\<rparr>)
       else flow_loop ?ch (priv effp') (l'\<lparr>len := ?b\<rparr>))"
    using flow_loop_split [OF h1 h2, of ?p] loop by simp
  have lhs: "?lM\<lparr>len := len ?lM + ?b\<rparr> =
      \<lparr>ibuf = stream, obuf = [], isamp = 0, osamp = 0, len = ?big\<rparr>"
    using big by simp
  show ?thesis
  proof (cases "st = SOX_EOF")
    case True
    with sp lhs ob e show ?thesis
      by (intro exI [of _ "l'\<lparr>len := len l' + ?b\<rparr>"]) simp
  next
    case False
    with sts fin uch have z: "len l' = 0" and s: "st = SOX_SUCCESS"
      and short: "length rest < unat ?ch"
      by auto
    from io z um ib have "length rest = ?N - M * unat ?ch" by simp
    with short mk have "?N < unat ?ch * Suc M" by (simp add: mult.commute) 
    moreover from mk have "unat ?ch * M \<le> ?N" by (simp add: mult.commute)
    ultimately have "?N div unat ?ch = M" by (intro div_nat_eqI)
    with ub have "?b = 0" by (simp add: unat_eq_0 [symmetric])
    with sp lhs False s ob e show ?thesis
      by (intro exI [of _ "l'\<lparr>len := 0\<rparr>"]) (simp add: flow_loop_zero)
  qed
qed

text \<open>
  The host gets through the stream: every call that is offered at least one whole frame,
  of input and of room for output, either signals the end or consumes at least one frame.
  So when at least as many of the buffers hold a whole frame as the stream has frames, the
  run ends with \<open>SOX_EOF\<close> or with less than one frame unread.
\<close>

lemma frames_left:
  fixes a n c :: nat
  assumes "0 < c" and "n * c \<le> a"
  shows "(a - n * c) div c = a div c - n"
proof -
  from assms(2) have "a = (a - n * c) + n * c" by simp
  then have "a div c = ((a - n * c) + n * c) div c" by simp
  also from assms(1) have "\<dots> = (a - n * c) div c + n" by simp
  finally show ?thesis by simp
qed

lemma unat_min:
  fixes a b :: "'a::len word"
  shows "unat (min a b) = min (unat a) (unat b)"
  by (simp add: min_def word_le_nat_alt)

lemma run_flow_progress:
  assumes "channels (in_signal effp) \<noteq> 0" and "length stream < 2 ^ 64"
    and "length stream div unat (channels (in_signal effp)) \<le>
       length (filter (\<lambda>(isize, osize). ucast (channels (in_signal effp)) \<le> min isize osize) bs)"
    and "run_flow effp stream bs = (st, effp', out, rest)"
  shows "st = SOX_EOF \<or> length rest < unat (channels (in_signal effp))"
  using assms
proof (induction bs arbitrary: effp stream st effp' out rest)
  case Nil
  from Nil.prems(1) have "0 < unat (channels (in_signal effp))" by (simp add: unat_gt_0)
  with Nil.prems(3) have "length stream < unat (channels (in_signal effp))"
    by (simp add: div_eq_0_iff)
  with Nil.prems(4) show ?case by simp
next
  case (Cons b bs)
  obtain isize osize where b: "b = (isize, osize)" by (cases b)
  let ?ch = "ucast (channels (in_signal effp)) :: size_t"
  let ?c = "unat (channels (in_signal effp))"
  let ?p = "priv effp"
  let ?k = "min (unat isize) (length stream)"
  let ?i0 = "of_nat ?k :: size_t"
  let ?n = "min ?i0 osize div ?ch"
  let ?l0 = "\<lparr>ibuf = stream, obuf = [], isamp = 0, osamp = 0, len = ?n\<rparr>"
  let ?P = "\<lambda>(isize, osize). ?ch \<le> min isize osize"
  have uch: "unat ?ch = ?c" by (rule unat_ucast_chans)
  from Cons.prems(1) have c0: "0 < ?c" by (simp add: unat_gt_0)
  have "unat isize < 2 ^ 64" using unsigned_less [of isize] by simp
  then have "?k < 2 ^ 64" by simp
  then have k: "unat ?i0 = ?k" by (rule of_nat_unat64)
  have "unat (min ?i0 osize) = min (unat ?i0) (unat osize)" by (rule unat_min)
  then have un: "unat ?n = min ?k (unat osize) div ?c"
    by (simp only: unat_div uch k)
  have "unat ?n * unat ?ch \<le> unat (min ?i0 osize)" by (rule frames_fit)
  also have "\<dots> \<le> unat ?i0" by (simp add: word_le_nat_alt [symmetric])
  finally have nk: "unat ?n * ?c \<le> length stream" using k uch by simp
  with Cons.prems(2) have nb2: "unat ?n * unat ?ch < 2 ^ 64" by (simp add: uch)
  then have nb: "unat (len ?l0) * unat ?ch < 2 ^ 64" by simp
  from flow_as_loop [of effp stream ?i0 osize] obtain st1 p1 l1 where
    loop1: "flow_loop ?ch ?p ?l0 = (st1, p1, l1)"
    and flow1: "flow effp stream ?i0 osize = (st1, effp\<lparr>priv := p1\<rparr>, obuf l1, isamp l1, osamp l1)"
    by blast
  from flow_loop_io [OF loop1 nb]
  have le1: "len l1 \<le> ?n" and is1: "isamp l1 = (?n - len l1) * ?ch"
    and ib1: "ibuf l1 = drop (unat (?n - len l1) * unat ?ch) stream"
    and st1: "st1 = SOX_SUCCESS \<and> len l1 = 0 \<or> st1 = SOX_EOF \<and> len l1 \<noteq> 0"
    by simp_all
  have "?n - len l1 \<le> ?n" using le1 by (rule word_sub_le_self)
  from this nb2 have "unat ((?n - len l1) * ?ch) = unat (?n - len l1) * unat ?ch"
    by (rule unat_mult_le64)
  with is1 ib1 have dr: "drop (unat (isamp l1)) stream = ibuf l1" by simp
  show ?case
  proof (cases "st1 = SOX_EOF")
    case True
    with Cons.prems(4) b flow1 show ?thesis by simp
  next
    case False
    with st1 have z1: "len l1 = 0" by auto
    let ?e1 = "effp\<lparr>priv := p1\<rparr>"
    let ?s1 = "ibuf l1"
    from ib1 z1 uch have s1d: "?s1 = drop (unat ?n * ?c) stream" by simp
    obtain st2 e2 out2 rest2 where run2: "run_flow ?e1 ?s1 bs = (st2, e2, out2, rest2)"
      by (metis prod_cases4)
    with Cons.prems(4) b flow1 False dr
    have r: "st = st2" "rest = rest2" by simp_all
    have c1: "channels (in_signal ?e1) \<noteq> 0" using Cons.prems(1) by simp
    have len1: "length ?s1 = length stream - unat ?n * ?c" by (simp add: s1d)
    with Cons.prems(2) have l1': "length ?s1 < 2 ^ 64" by simp
    from len1 frames_left [OF c0 nk]
    have fl: "length ?s1 div ?c = length stream div ?c - unat ?n" by simp
    have "length ?s1 div ?c \<le> length (filter ?P bs)"
    proof (cases "?P b \<and> ?c \<le> length stream")
      case True
      with b have "?c \<le> unat isize" "?c \<le> unat osize"
        by (simp_all add: word_le_nat_alt uch unat_min)
      with True have "?c \<le> min ?k (unat osize)" by simp
      with c0 have "1 \<le> unat ?n" unfolding un by (simp add: Suc_le_eq div_greater_zero_iff)
      with fl Cons.prems(3) True show ?thesis by simp
    next
      case False
      show ?thesis
      proof (cases "?P b")
        case True
        with False have "length stream < ?c" by simp
        then have "length stream div ?c = 0" by simp
        with fl show ?thesis by simp
      next
        case False
        with fl Cons.prems(3) show ?thesis by simp
      qed
    qed
    then have h3: "length ?s1 div unat (channels (in_signal ?e1)) \<le>
       length (filter (\<lambda>(isize, osize). ucast (channels (in_signal ?e1)) \<le> min isize osize) bs)"
      by simp
    from Cons.IH [OF c1 l1' h3 run2] r show ?thesis by simp
  qed
qed

text \<open>
  C3. Let the host push a stream through \<^verbatim>\<open>flow\<close> in a sequence \<open>bs\<close> of buffer
  sizes, however small. When at least as many of the buffers hold a whole frame as the
  stream has frames, the run gets through the stream (it ends with \<open>SOX_EOF\<close> or with
  less than one frame unread), and one call of \<^verbatim>\<open>flow\<close> on the whole stream, with room
  for all of it in the output buffer, returns the same status, leaves the effect in the same
  state, and writes the same samples as all the small calls together. The same holds of
  every run that has got through the stream, whatever its buffers were. (The stream must
  fit a \<^verbatim>\<open>size_t\<close> count to be given in one call.)
\<close>

theorem chunking_independent:
  assumes "channels (in_signal effp) \<noteq> 0" and "length stream < 2 ^ 64"
  shows "(length stream div unat (channels (in_signal effp)) \<le>
            length (filter (\<lambda>(isize, osize).
              ucast (channels (in_signal effp)) \<le> min isize osize) bs) \<longrightarrow>
          (\<exists>st effp' out rest n m.
             run_flow effp stream bs = (st, effp', out, rest) \<and>
             (st = SOX_EOF \<or> length rest < unat (channels (in_signal effp))) \<and>
             flow effp stream (of_nat (length stream)) (of_nat (length stream)) =
               (st, effp', out, n, m))) \<and>
         (run_flow effp stream bs = (st, effp', out, rest) \<and>
          (st = SOX_EOF \<or> length rest < unat (channels (in_signal effp))) \<longrightarrow>
          (\<exists>n m. flow effp stream (of_nat (length stream)) (of_nat (length stream)) =
             (st, effp', out, n, m)))"
proof -
  have one: "\<exists>n m. flow effp stream (of_nat (length stream)) (of_nat (length stream)) =
      (s, e, ou, n, m)"
    if run: "run_flow effp stream bs = (s, e, ou, re)"
      and fin: "s = SOX_EOF \<or> length re < unat (channels (in_signal effp))"
    for s e ou re
  proof -
    from run_flow_complete [OF assms run fin] obtain l' where
      "flow_loop (ucast (channels (in_signal effp))) (priv effp)
         \<lparr>ibuf = stream, obuf = [], isamp = 0, osamp = 0,
          len = of_nat (length stream) div ucast (channels (in_signal effp))\<rparr> =
           (s, priv e, l')"
      and "obuf l' = ou" and "e = effp\<lparr>priv := priv e\<rparr>"
      by blast
    then have "flow effp stream (of_nat (length stream)) (of_nat (length stream)) =
        (s, e, ou, isamp l', osamp l')"
      by (simp add: flow_def Let_def)
    then show ?thesis by (intro exI)
  qed
  have a: "\<exists>st effp' out rest n m.
      run_flow effp stream bs = (st, effp', out, rest) \<and>
      (st = SOX_EOF \<or> length rest < unat (channels (in_signal effp))) \<and>
      flow effp stream (of_nat (length stream)) (of_nat (length stream)) =
        (st, effp', out, n, m)"
    if enough: "length stream div unat (channels (in_signal effp)) \<le>
        length (filter (\<lambda>(isize, osize).
          ucast (channels (in_signal effp)) \<le> min isize osize) bs)"
  proof -
    obtain s e ou re where run: "run_flow effp stream bs = (s, e, ou, re)"
      by (metis prod_cases4)
    from run_flow_progress [OF assms enough run]
    have fin: "s = SOX_EOF \<or> length re < unat (channels (in_signal effp))" .
    from one [OF run fin] obtain n m where
      "flow effp stream (of_nat (length stream)) (of_nat (length stream)) = (s, e, ou, n, m)"
      by (elim exE)
    with run fin show ?thesis by (intro exI conjI)
  qed
  show ?thesis
  proof (intro conjI impI)
    assume "length stream div unat (channels (in_signal effp)) \<le>
        length (filter (\<lambda>(isize, osize).
          ucast (channels (in_signal effp)) \<le> min isize osize) bs)"
    then show "\<exists>st effp' out rest n m.
        run_flow effp stream bs = (st, effp', out, rest) \<and>
        (st = SOX_EOF \<or> length rest < unat (channels (in_signal effp))) \<and>
        flow effp stream (of_nat (length stream)) (of_nat (length stream)) =
          (st, effp', out, n, m)"
      by (rule a)
  next
    assume h: "run_flow effp stream bs = (st, effp', out, rest) \<and>
        (st = SOX_EOF \<or> length rest < unat (channels (in_signal effp)))"
    from one [OF h [THEN conjunct1] h [THEN conjunct2]]
    show "\<exists>n m. flow effp stream (of_nat (length stream)) (of_nat (length stream)) =
        (st, effp', out, n, m)" .
  qed
qed

theorem chunking_independent_witness:
  "run_flow ex_effp ex_stream
     [(4, 4), (4, 4), (4, 4), (4, 4), (4, 4), (4, 4), (4, 4), (4, 4), (4, 4), (4, 4), (4, 4),
      (4, 4)] =
     (SOX_EOF, ex_effp\<lparr>priv := (priv ex_effp)\<lparr>current_pos := 2, samples_read := 10\<rparr>\<rparr>,
      [10, 11, 12, 13, 14, 15, 16, 17, 18, 19], [20, 21, 22, 23]) \<and>
   fst (flow ex_effp ex_stream 24 24) = SOX_EOF \<and>
   fst (snd (flow ex_effp ex_stream 24 24)) =
     ex_effp\<lparr>priv := (priv ex_effp)\<lparr>current_pos := 2, samples_read := 10\<rparr>\<rparr> \<and>
   fst (snd (snd (flow ex_effp ex_stream 24 24))) = [10, 11, 12, 13, 14, 15, 16, 17, 18, 19]"
proof -
  let ?bs = "[(4, 4), (4, 4), (4, 4), (4, 4), (4, 4), (4, 4), (4, 4), (4, 4), (4, 4), (4, 4),
      (4, 4), (4, 4)] :: (size_t \<times> size_t) list"
  have h1: "channels (in_signal ex_effp) \<noteq> 0" by simp
  have h2: "length ex_stream < 2 ^ 64" by simp
  have h3: "length ex_stream div unat (channels (in_signal ex_effp)) \<le>
      length (filter (\<lambda>(isize, osize).
        ucast (channels (in_signal ex_effp)) \<le> min isize osize) ?bs)"
    by simp
  from chunking_independent [OF h1 h2, of ?bs, THEN conjunct1, rule_format, OF h3]
  obtain st effp' out rest n m where
    r: "run_flow ex_effp ex_stream ?bs = (st, effp', out, rest)"
    and f: "flow ex_effp ex_stream (of_nat (length ex_stream)) (of_nat (length ex_stream)) =
      (st, effp', out, n, m)"
    by (elim exE conjE)
  have v: "run_flow ex_effp ex_stream ?bs =
     (SOX_EOF, ex_effp\<lparr>priv := (priv ex_effp)\<lparr>current_pos := 2, samples_read := 10\<rparr>\<rparr>,
      [10, 11, 12, 13, 14, 15, 16, 17, 18, 19], [20, 21, 22, 23])"
    by (simp add: ex_eval)
  from r v have e: "st = SOX_EOF"
    "effp' = ex_effp\<lparr>priv := (priv ex_effp)\<lparr>current_pos := 2, samples_read := 10\<rparr>\<rparr>"
    "out = [10, 11, 12, 13, 14, 15, 16, 17, 18, 19]"
    by simp_all
  have "of_nat (length ex_stream) = (24 :: size_t)" by simp
  with f e have "flow ex_effp ex_stream 24 24 =
     (SOX_EOF, ex_effp\<lparr>priv := (priv ex_effp)\<lparr>current_pos := 2, samples_read := 10\<rparr>\<rparr>,
      [10, 11, 12, 13, 14, 15, 16, 17, 18, 19], n, m)"
    by simp
  with v show ?thesis by simp
qed

subsection \<open>The output of flow is the kept spans\<close>



lemma kept_spans_Nil [simp]: "kept_spans ch c sr ms [] = []"
  by (induction ms arbitrary: c sr) simp_all


















lemma in_length_known:
  assumes "length_sig (in_signal e) \<noteq> SOX_UNKNOWN_LEN" and "channels (in_signal e) \<noteq> 0"
  shows "in_length_of e \<noteq> SOX_UNKNOWN_LEN \<and>
     unat (in_length_of e) * unat (channels (in_signal e)) \<le> unat (length_sig (in_signal e)) \<and>
     unat (in_length_of e) * unat (channels (in_signal e)) < 2 ^ 64"
proof -
  let ?n = "length_sig (in_signal e)"
  let ?c = "ucast (channels (in_signal e)) :: size_t"
  have uc: "unat ?c = unat (channels (in_signal e))" by (rule unat_ucast_chans)
  from assms(1) have il: "in_length_of e = ?n div ?c" by (simp add: in_length_of_def)
  have m: "unat (?n div ?c) * unat ?c \<le> unat ?n" by (rule frames_fit)
  have n64: "unat ?n < 2 ^ 64" using unsigned_less [of ?n] by simp
  have "?n div ?c \<le> ?n" by (simp add: word_le_nat_alt unat_div)
  have "in_length_of e \<noteq> SOX_UNKNOWN_LEN"
  proof
    assume "in_length_of e = SOX_UNKNOWN_LEN"
    with il \<open>?n div ?c \<le> ?n\<close> have "- 1 \<le> ?n" by (simp add: SOX_UNKNOWN_LEN_def)
    then have "?n = - 1" by (simp add: word_order.extremum_unique)
    with assms(1) show False by (simp add: SOX_UNKNOWN_LEN_def)
  qed
  moreover from m n64 have "unat (?n div ?c) * unat ?c < 2 ^ 64" by (rule le_less_trans)
  ultimately show ?thesis using m by (simp add: il uc)
qed

lemma last_pos:
  assumes "length (pos p) = unat (num_pos p)" and "pos p \<noteq> []"
  shows "num_pos p \<noteq> 0 \<and> pos p ! unat (num_pos p - 1) = last (pos p)"
proof -
  from assms(2) have "length (pos p) \<noteq> 0" by simp
  with assms(1) have "unat (num_pos p) \<noteq> 0" by simp
  then have nz: "num_pos p \<noteq> 0" by (simp add: unat_eq_0)
  then have "unat (num_pos p - 1) = unat (num_pos p) - 1" by (rule unat_minus_one)
  with assms nz show ?thesis by (simp add: last_conv_nth)
qed

lemma start_bounds:
  assumes st: "start ps effp0 = Inr (st, effp)"
    and wf: "length (pos (priv effp0)) = unat (num_pos (priv effp0))"
    and known: "in_length_of effp0 \<noteq> SOX_UNKNOWN_LEN"
  shows "\<forall>x\<in>set (pos (priv effp)). sample x \<le> in_length_of effp0"
proof (cases "pos (priv effp) = []")
  case True
  then show ?thesis by simp
next
  case False
  let ?p = "priv effp"
  from start_priv [OF st wf] wf have len: "length (pos ?p) = unat (num_pos ?p)"
    and srt: "sorted (map sample (pos ?p))"
    by simp_all
  from last_pos [OF len False] have nz: "num_pos ?p \<noteq> 0"
    and l: "pos ?p ! unat (num_pos ?p - 1) = last (pos ?p)" by simp_all
  from start_Inr [OF st] nz known l have top: "sample (last (pos ?p)) \<le> in_length_of effp0"
    by auto
  show ?thesis
  proof
    fix x assume "x \<in> set (pos ?p)"
    then obtain i where i: "i < length (pos ?p)" "x = pos ?p ! i" by (auto simp: in_set_conv_nth)
    with srt have "sample x \<le> sample (pos ?p ! (length (pos ?p) - 1))"
      using sorted_nth_mono [of "map sample (pos ?p)" i "length (pos ?p) - 1"] by simp
    with False top show "sample x \<le> in_length_of effp0" by (simp add: last_conv_nth)
  qed
qed








subsection \<open>After the last position\<close>











subsection \<open>The start-skip interface\<close>

text \<open>
  C8. \<^verbatim>\<open>sox_trim_get_start\<close> returns the offset of the first position times the
  channel count (the 64-bit product), or 0 when there is no position; after a successful
  \<^verbatim>\<open>start\<close> on an input of known length the product does not wrap.
  \<^verbatim>\<open>sox_trim_clear_start\<close> sets \<open>samples_read\<close> to the offset of the first
  position (0 when there is none) and writes nothing else. Right after configuration
  (cursor 0, no frame read, not copying) this is the very state that \<^verbatim>\<open>flow\<close> reaches
  when it is given exactly that many leading frames: \<^verbatim>\<open>flow\<close> returns
  \<open>SOX_SUCCESS\<close>, consumes the number of samples that \<^verbatim>\<open>sox_trim_get_start\<close>
  returns, writes no output, and leaves the effect as \<^verbatim>\<open>sox_trim_clear_start\<close> does,
  so every later call of \<^verbatim>\<open>flow\<close> behaves the same in both cases.
\<close>

theorem start_skip:
  assumes "channels (in_signal effp) \<noteq> 0"
    and "current_pos (priv effp) = 0" and "samples_read (priv effp) = 0"
    and "\<not> copying (priv effp)"
    and "min isamp0 osamp0 div ucast (channels (in_signal effp)) =
           (if num_pos (priv effp) \<noteq> 0 then sample (pos (priv effp) ! 0) else 0)"
  shows "sox_trim_get_start effp =
           (if num_pos (priv effp) \<noteq> 0
            then sample (pos (priv effp) ! 0) * ucast (channels (in_signal effp)) else 0) \<and>
         sox_trim_clear_start effp =
           effp\<lparr>priv := (priv effp)\<lparr>samples_read :=
             (if num_pos (priv effp) \<noteq> 0 then sample (pos (priv effp) ! 0) else 0)\<rparr>\<rparr> \<and>
         flow effp ibuf0 isamp0 osamp0 =
           (SOX_SUCCESS, sox_trim_clear_start effp, [], sox_trim_get_start effp, 0) \<and>
         (\<forall>lsx_parsesamples effp0 st.
            start lsx_parsesamples effp0 = Inr (st, effp) \<and>
            length (pos (priv effp0)) = unat (num_pos (priv effp0)) \<and>
            length_sig (in_signal effp0) \<noteq> SOX_UNKNOWN_LEN \<and> num_pos (priv effp) \<noteq> 0 \<longrightarrow>
            unat (sox_trim_get_start effp) =
              unat (sample (pos (priv effp) ! 0)) * unat (channels (in_signal effp)))"
proof -
  let ?p = "priv effp"
  let ?c = "ucast (channels (in_signal effp)) :: size_t"
  let ?m = "if num_pos ?p \<noteq> 0 then sample (pos ?p ! 0) else 0"
  let ?l = "\<lparr>ibuf = ibuf0, obuf = [], isamp = 0, osamp = 0, len = ?m\<rparr>"
  have gs: "sox_trim_get_start effp = ?m * ?c"
    by (simp add: sox_trim_get_start_def Let_def)
  have fl: "\<exists>l'. flow_loop ?c ?p ?l = (SOX_SUCCESS, ?p\<lparr>samples_read := ?m\<rparr>, l') \<and>
      obuf l' = [] \<and> osamp l' = 0 \<and> isamp l' = ?m * ?c"
  proof (cases "?m = 0")
    case True
    then have "flow_loop ?c ?p ?l = (SOX_SUCCESS, ?p, ?l)" by (intro flow_loop_zero) simp
    moreover from True assms(3) have "?p\<lparr>samples_read := ?m\<rparr> = ?p" by simp
    ultimately show ?thesis using True by simp
  next
    case False
    then have np: "num_pos ?p \<noteq> 0" and m: "?m = sample (pos ?p ! 0)" and nz: "sample (pos ?p ! 0) \<noteq> 0"
      by (auto split: if_splits)
    from assms(2,3) nz have cr: "cross_pos ?p = ?p" by (intro cross_pos_not_at) simp
    from np assms(2) have lt: "current_pos ?p < num_pos ?p" by (simp add: word_greater_zero_iff)
    then have ne: "\<not> (num_pos (cross_pos ?p) \<le> current_pos (cross_pos ?p) \<and> \<not> copying (cross_pos ?p))"
      by (simp add: cr not_le)
    from lt assms(2,3) have ch: "chunk_of ?p (sample (pos ?p ! 0)) = sample (pos ?p ! 0)"
      by (simp add: chunk_of_def)
    have "flow_loop ?c ?p ?l =
        flow_loop ?c (?p\<lparr>samples_read := samples_read ?p + sample (pos ?p ! 0)\<rparr>)
          (transfer ?c (copying ?p) (sample (pos ?p ! 0)) ?l)"
      using flow_loop_step [of ?l ?p ?c] ne nz m ch by (simp add: cr)
    also have "\<dots> = (SOX_SUCCESS, ?p\<lparr>samples_read := samples_read ?p + sample (pos ?p ! 0)\<rparr>,
        transfer ?c (copying ?p) (sample (pos ?p ! 0)) ?l)"
      using m by (intro flow_loop_zero) simp
    finally show ?thesis using assms(3,4) m by (simp add: transfer_def)
  qed
  then obtain l' where l': "flow_loop ?c ?p ?l = (SOX_SUCCESS, ?p\<lparr>samples_read := ?m\<rparr>, l')"
    "obuf l' = []" "osamp l' = 0" "isamp l' = ?m * ?c"
    by blast
  have cs: "sox_trim_clear_start effp = effp\<lparr>priv := ?p\<lparr>samples_read := ?m\<rparr>\<rparr>"
    by (simp add: sox_trim_clear_start_def Let_def)
  have fw: "flow effp ibuf0 isamp0 osamp0 =
      (SOX_SUCCESS, sox_trim_clear_start effp, [], sox_trim_get_start effp, 0)"
    using l' assms(5) by (simp add: flow_def Let_def cs gs)
  have nw: "unat (sox_trim_get_start effp) =
      unat (sample (pos ?p ! 0)) * unat (channels (in_signal effp))"
    if st: "start ps effp0 = Inr (st, effp)"
      and wf: "length (pos (priv effp0)) = unat (num_pos (priv effp0))"
      and known: "length_sig (in_signal effp0) \<noteq> SOX_UNKNOWN_LEN"
      and np: "num_pos ?p \<noteq> 0"
    for ps effp0 st
  proof -
    from start_Inr [OF st] have sig: "in_signal effp = in_signal effp0" by blast
    with assms(1) have ch0: "channels (in_signal effp0) \<noteq> 0" by simp
    from in_length_known [OF known ch0] sig
    have k: "in_length_of effp0 \<noteq> SOX_UNKNOWN_LEN"
      and b: "unat (in_length_of effp0) * unat ?c < 2 ^ 64"
      by (simp_all add: unat_ucast_chans)
    from start_priv [OF st wf] wf have len: "length (pos ?p) = unat (num_pos ?p)" by simp
    with np have "0 < length (pos ?p)" by (simp add: unat_gt_0)
    then have "pos ?p ! 0 \<in> set (pos ?p)" by (rule nth_mem)
    with start_bounds [OF st wf k] have "sample (pos ?p ! 0) \<le> in_length_of effp0" by blast
    from this b have "unat (sample (pos ?p ! 0) * ?c) = unat (sample (pos ?p ! 0)) * unat ?c"
      by (rule unat_mult_le64)
    with np show ?thesis by (simp add: gs unat_ucast_chans)
  qed
  from nw have "\<forall>lsx_parsesamples effp0 st.
      start lsx_parsesamples effp0 = Inr (st, effp) \<and>
      length (pos (priv effp0)) = unat (num_pos (priv effp0)) \<and>
      length_sig (in_signal effp0) \<noteq> SOX_UNKNOWN_LEN \<and> num_pos (priv effp) \<noteq> 0 \<longrightarrow>
      unat (sox_trim_get_start effp) =
        unat (sample (pos (priv effp) ! 0)) * unat (channels (in_signal effp))"
    by blast
  moreover have "sox_trim_get_start effp =
      (if num_pos ?p \<noteq> 0 then sample (pos ?p ! 0) * ?c else 0)"
    by (simp add: gs)
  ultimately show ?thesis using cs fw by (intro conjI)
qed

theorem start_skip_witness:
  "sox_trim_get_start ex_effp = 10 \<and>
   samples_read (priv (sox_trim_clear_start ex_effp)) = 5 \<and>
   flow ex_effp (take 10 ex_stream) 10 10 =
     (SOX_SUCCESS, sox_trim_clear_start ex_effp, [], 10, 0)"
proof -
  have h5: "min 10 10 div ucast (channels (in_signal ex_effp)) =
      (if num_pos (priv ex_effp) \<noteq> 0 then sample (pos (priv ex_effp) ! 0) else (0 :: size_t))"
    by simp
  from start_skip [of ex_effp 10 10 "take 10 ex_stream", OF _ _ _ _ h5]
  have "sox_trim_get_start ex_effp = 10"
    and "sox_trim_clear_start ex_effp =
      ex_effp\<lparr>priv := (priv ex_effp)\<lparr>samples_read := 5\<rparr>\<rparr>"
    and "flow ex_effp (take 10 ex_stream) 10 10 =
      (SOX_SUCCESS, sox_trim_clear_start ex_effp, [], sox_trim_get_start ex_effp, 0)"
    by simp_all
  then show ?thesis by simp
qed

end
